theory Spec2Isabelle
  imports Complex_Main
begin

section \<open>Strings\<close>

text \<open>
  Python strings are modelled as \<open>string\<close> (lists of characters).  Python floats are
  modelled as \<open>real\<close>: arithmetic is exact, there is no rounding, no infinity and no NaN.
\<close>

text \<open>\<^verbatim>\<open>s.startswith(k)\<close>\<close>

fun startswith :: "string \<Rightarrow> string \<Rightarrow> bool" where
  "startswith s [] = True"
| "startswith [] (k # ks) = False"
| "startswith (c # s) (k # ks) = (c = k \<and> startswith s ks)"

text \<open>\<^verbatim>\<open>k in s\<close> for two strings: \<open>k\<close> occurs in \<open>s\<close> as a contiguous, case-sensitive substring.\<close>

fun str_in :: "string \<Rightarrow> string \<Rightarrow> bool" where
  "str_in k [] = (k = [])"
| "str_in k (c # s) = (startswith (c # s) k \<or> str_in k s)"

text \<open>\<^verbatim>\<open>any(keyword in pred for keyword in keywords)\<close>\<close>

definition any_keyword_in :: "string list \<Rightarrow> string \<Rightarrow> bool" where
  "any_keyword_in keywords pred = list_ex (\<lambda>keyword. str_in keyword pred) keywords"

text \<open>\<^verbatim>\<open>pred.replace('_', ' ')\<close>\<close>

definition replace_underscore :: "string \<Rightarrow> string" where
  "replace_underscore pred = map (\<lambda>c. if c = CHR ''_'' then CHR '' '' else c) pred"

section \<open>Scene classifier (caption\_generator.py)\<close>

text \<open>
  \<open>self.scene_keywords\<close> is a dict from category name to keyword list.  A Python dict
  iterates in insertion order, so it is an association list here; its keys are distinct.
\<close>

type_synonym keyword_table = "(string \<times> string list) list"

text \<open>
  \<^verbatim>\<open>max(category_scores, key=category_scores.get)\<close>: the first key, in iteration order,
  whose value is maximal.  \<open>max_by best xs\<close> scans \<open>xs\<close> and replaces the running
  best only by a strictly larger value.
\<close>

fun max_by :: "string \<times> 'a::linorder \<Rightarrow> (string \<times> 'a) list \<Rightarrow> string \<times> 'a" where
  "max_by best [] = best"
| "max_by best (x # xs) = max_by (if snd best < snd x then x else best) xs"

subsection \<open>categorize\_scene\<close>

text \<open>\<^verbatim>\<open>sum(1 for pred in predictions if any(keyword in pred for keyword in keywords))\<close>\<close>

definition count_score :: "string list \<Rightarrow> string list \<Rightarrow> nat" where
  "count_score keywords predictions = length (filter (any_keyword_in keywords) predictions)"

definition categorize_scene :: "keyword_table \<Rightarrow> string list \<Rightarrow> string \<times> real" where
  "categorize_scene scene_keywords predictions =
     (let category_scores =
            map (\<lambda>(category, keywords). (category, count_score keywords predictions)) scene_keywords
      in case category_scores of
           [] \<Rightarrow> (''general'', 0.5)
         | c # cs \<Rightarrow>
             (let best = max_by c cs
              in if snd best > 0 then (fst best, 0.7) else (''general'', 0.5)))"

subsection \<open>advanced\_scene\_categorization\<close>

text \<open>\<^verbatim>\<open>position_weight = 1.0 - (i * 0.1)\<close>\<close>

definition position_weight :: "nat \<Rightarrow> real" where
  "position_weight i = 1.0 - (real i * 0.1)"

text \<open>\<^verbatim>\<open>confidence_weight = confidence_scores[i] if i < len(confidence_scores) else 0.1\<close>\<close>

definition confidence_weight :: "real list \<Rightarrow> nat \<Rightarrow> real" where
  "confidence_weight confidence_scores i =
     (if i < length confidence_scores then confidence_scores ! i else 0.1)"

text \<open>The inner loop \<^verbatim>\<open>for keyword in keywords\<close>, for the prediction \<open>pred\<close> at rank \<open>i\<close>.\<close>

fun keyword_loop :: "real list \<Rightarrow> nat \<Rightarrow> string \<Rightarrow> string list \<Rightarrow> real \<Rightarrow> real" where
  "keyword_loop confidence_scores i pred [] weighted_score = weighted_score"
| "keyword_loop confidence_scores i pred (keyword # keywords) weighted_score =
     keyword_loop confidence_scores i pred keywords
       (if str_in keyword pred
        then weighted_score + position_weight i * confidence_weight confidence_scores i * 2
        else weighted_score)"

text \<open>The outer loop \<^verbatim>\<open>for i, pred in enumerate(predictions)\<close>.\<close>

fun prediction_loop :: "string list \<Rightarrow> real list \<Rightarrow> nat \<Rightarrow> string list \<Rightarrow> real \<Rightarrow> real" where
  "prediction_loop keywords confidence_scores i [] weighted_score = weighted_score"
| "prediction_loop keywords confidence_scores i (pred # predictions) weighted_score =
     prediction_loop keywords confidence_scores (Suc i) predictions
       (keyword_loop confidence_scores i pred keywords weighted_score)"

text \<open>The value stored in \<^verbatim>\<open>category_scores[category]\<close>.\<close>

definition weighted_score_of :: "string list \<Rightarrow> string list \<Rightarrow> real list \<Rightarrow> real" where
  "weighted_score_of keywords predictions confidence_scores =
     prediction_loop keywords confidence_scores 0 predictions 0"

definition advanced_scene_categorization ::
  "keyword_table \<Rightarrow> string list \<Rightarrow> real list \<Rightarrow> string \<times> real" where
  "advanced_scene_categorization scene_keywords predictions confidence_scores =
     (let category_scores =
            map (\<lambda>(category, keywords).
                   (category, weighted_score_of keywords predictions confidence_scores))
                scene_keywords
      in case category_scores of
           [] \<Rightarrow> (''general'', 0.5)
         | c # cs \<Rightarrow>
             (let best = max_by c cs; max_score = snd best
              in if max_score > 0.3 then (fst best, min max_score 1.0)
                 else (''general'', 0.5)))"

subsection \<open>\_extract\_contextual\_info\<close>

record context_dict =
  primary_objects :: "string list"
  secondary_objects :: "string list"
  environment :: "string list"
  activity_indicators :: "string list"
  mood_indicators :: "string list"

definition object_keywords :: "string list" where
  "object_keywords =
     [''person'', ''dog'', ''cat'', ''car'', ''building'', ''tree'', ''flower'', ''food'']"

definition environment_keywords :: "string list" where
  "environment_keywords =
     [''outdoor'', ''indoor'', ''beach'', ''forest'', ''city'', ''room'', ''kitchen'']"

definition activity_keywords :: "string list" where
  "activity_keywords =
     [''playing'', ''running'', ''sitting'', ''walking'', ''eating'', ''sleeping'']"

definition mood_keywords :: "string list" where
  "mood_keywords = [''sunset'', ''sunny'', ''cloudy'', ''bright'', ''dark'', ''colorful'']"

text \<open>One iteration of the loop body, for the prediction \<open>pred\<close> at rank \<open>i\<close>.\<close>

definition context_step :: "real list \<Rightarrow> nat \<Rightarrow> string \<Rightarrow> context_dict \<Rightarrow> context_dict" where
  "context_step confidence_scores i pred ctx =
     (let confidence = (if i < length confidence_scores then confidence_scores ! i else 0.1)
      in if confidence > 0.1 then
           (let c1 = (if any_keyword_in object_keywords pred then
                        (if confidence > 0.3
                         then ctx\<lparr>primary_objects := primary_objects ctx @ [replace_underscore pred]\<rparr>
                         else ctx\<lparr>secondary_objects := secondary_objects ctx @ [replace_underscore pred]\<rparr>)
                      else ctx);
                c2 = (if any_keyword_in environment_keywords pred
                      then c1\<lparr>environment := environment c1 @ [replace_underscore pred]\<rparr>
                      else c1);
                c3 = (if any_keyword_in activity_keywords pred
                      then c2\<lparr>activity_indicators := activity_indicators c2 @ [replace_underscore pred]\<rparr>
                      else c2)
            in if any_keyword_in mood_keywords pred
               then c3\<lparr>mood_indicators := mood_indicators c3 @ [replace_underscore pred]\<rparr>
               else c3)
         else ctx)"

fun context_loop :: "real list \<Rightarrow> nat \<Rightarrow> string list \<Rightarrow> context_dict \<Rightarrow> context_dict" where
  "context_loop confidence_scores i [] ctx = ctx"
| "context_loop confidence_scores i (pred # predictions) ctx =
     context_loop confidence_scores (Suc i) predictions (context_step confidence_scores i pred ctx)"

definition extract_contextual_info :: "string list \<Rightarrow> real list \<Rightarrow> context_dict" where
  "extract_contextual_info predictions confidence_scores =
     context_loop confidence_scores 0 (take 8 predictions)
       \<lparr>primary_objects = [], secondary_objects = [], environment = [],
        activity_indicators = [], mood_indicators = []\<rparr>"

section \<open>Sequence decoder (model.py)\<close>

subsection \<open>Library functions used by the decoder\<close>

text \<open>
  \<^verbatim>\<open>s.replace(old, new)\<close>: the occurrences of \<open>old\<close> are replaced from left to right,
  without overlap.  For an empty \<open>old\<close> Python inserts \<open>new\<close> before every character and
  at the end.
\<close>

function str_replace :: "string \<Rightarrow> string \<Rightarrow> string \<Rightarrow> string" where
  "str_replace old new s =
     (if old = [] then new @ concat (map (\<lambda>c. c # new) s)
      else if s = [] then []
      else if startswith s old then new @ str_replace old new (drop (length old) s)
      else hd s # str_replace old new (tl s))"
  by pat_completeness auto
termination
  by (relation "measure (\<lambda>(old, new, s). length s)") auto

declare str_replace.simps [simp del]

text \<open>
  \<^verbatim>\<open>c.isspace()\<close> for the code points below 256: tab, line feed, vertical tab, form feed,
  carriage return, the separators 28 to 31, space, next line (133) and no-break space (160).
\<close>

definition is_space :: "char \<Rightarrow> bool" where
  "is_space c = (of_char c \<in> {9, 10, 11, 12, 13, 28, 29, 30, 31, 32, 133, 160 :: nat})"

text \<open>\<^verbatim>\<open>s.strip()\<close>\<close>

definition strip :: "string \<Rightarrow> string" where
  "strip s = rev (dropWhile is_space (rev (dropWhile is_space s)))"

text \<open>\<^verbatim>\<open>' '.join(words)\<close>\<close>

fun join_space :: "string list \<Rightarrow> string" where
  "join_space [] = []"
| "join_space [w] = w"
| "join_space (w # ws) = w @ '' '' @ join_space ws"

datatype error =
    NotReady \<comment> \<open>\<^verbatim>\<open>raise ValueError("Model and tokenizer must be loaded first")\<close>\<close>
  | ArgmaxOfEmpty \<comment> \<open>the ValueError of \<^verbatim>\<open>np.argmax\<close> on an empty array\<close>
  | IndexError \<comment> \<open>\<^verbatim>\<open>sequences[0]\<close> on an empty list\<close>

text \<open>
  \<^verbatim>\<open>np.argmax(prediction)\<close>: the index of the first maximal entry; an empty array raises.
  \<open>argmax_from best i xs\<close> scans the entries \<open>xs\<close>, which start at index \<open>i\<close>, with the
  running best (index, value).
\<close>

fun argmax_from :: "nat \<times> real \<Rightarrow> nat \<Rightarrow> real list \<Rightarrow> nat" where
  "argmax_from best i [] = fst best"
| "argmax_from best i (x # xs) = argmax_from (if snd best < x then (i, x) else best) (Suc i) xs"

definition argmax :: "real list \<Rightarrow> error + nat" where
  "argmax prediction =
     (case prediction of [] \<Rightarrow> Inl ArgmaxOfEmpty | x # xs \<Rightarrow> Inr (argmax_from (0, x) 1 xs))"

text \<open>
  \<^verbatim>\<open>np.argsort(predictions)\<close>: the indices in ascending order of their entries.  NumPy
  leaves the order of equal entries to the sorting algorithm; here they keep their index
  order (a stable sort, as NumPy's insertion sort on short arrays).
\<close>

definition argsort :: "real list \<Rightarrow> nat list" where
  "argsort predictions = sort_key (\<lambda>i. predictions ! i) [0..<length predictions]"

text \<open>The slice \<^verbatim>\<open>xs[-n:]\<close> for \<open>n \<ge> 0\<close>: the last \<open>n\<close> entries, and all of \<open>xs\<close> for \<open>n = 0\<close>.\<close>

definition last_n :: "nat \<Rightarrow> 'a list \<Rightarrow> 'a list" where
  "last_n n xs = (if n = 0 then xs else drop (length xs - n) xs)"

text \<open>
  \<^verbatim>\<open>tf.keras.preprocessing.sequence.pad_sequences([sequence], maxlen=maxlen)\<close> with the
  defaults of Keras: a longer sequence keeps its last \<open>maxlen\<close> entries, a shorter one is
  filled with zeros at the front.
\<close>

definition pad_sequences :: "nat \<Rightarrow> nat list \<Rightarrow> nat list" where
  "pad_sequences maxlen sequence =
     replicate (maxlen - length sequence) 0 @ drop (length sequence - maxlen) sequence"

subsection \<open>The model object\<close>

text \<open>
  The tokenizer is the Keras \<open>Tokenizer\<close>: \<open>word_index\<close> is its dict from word to id, in
  insertion order; \<open>texts_to_sequences\<close> is its method, applied to one text.
\<close>

record tokenizer =
  word_index :: "(string \<times> nat) list"
  texts_to_sequences :: "string \<Rightarrow> nat list"

text \<open>
  The stepping function \<^verbatim>\<open>self.model.predict([image_features, seq], verbose=0)[0]\<close>: from
  the image features and one padded id sequence to the scores of the next id.
\<close>

type_synonym features = "real list"
type_synonym keras_model = "features \<Rightarrow> nat list \<Rightarrow> real list"

text \<open>The fields of \<open>ImageCaptionModel\<close> that the decoders read.\<close>

record ImageCaptionModel =
  max_length :: nat
  tokenizer :: "tokenizer option"
  model :: "keras_model option"

text \<open>\<^verbatim>\<open>tokenizer.word_index.get(word, default)\<close>\<close>

definition word_index_get :: "tokenizer \<Rightarrow> string \<Rightarrow> nat \<Rightarrow> nat" where
  "word_index_get tok word dflt =
     (case map_of (word_index tok) word of None \<Rightarrow> dflt | Some index \<Rightarrow> index)"

fun word_for_id_items :: "nat \<Rightarrow> (string \<times> nat) list \<Rightarrow> string option" where
  "word_for_id_items integer [] = None"
| "word_for_id_items integer ((word, index) # items) =
     (if index = integer then Some word else word_for_id_items integer items)"

definition word_for_id :: "nat \<Rightarrow> tokenizer \<Rightarrow> string option" where
  "word_for_id integer tok = word_for_id_items integer (word_index tok)"

subsection \<open>generate\_caption\_simple\<close>

text \<open>
  The loop \<^verbatim>\<open>for _ in range(self.max_length)\<close> with \<open>n\<close> iterations left.  The state is
  \<open>in_text\<close> and the number \<open>calls\<close> of calls of the stepping function made so far.
\<close>

fun greedy_loop ::
  "tokenizer \<Rightarrow> keras_model \<Rightarrow> nat \<Rightarrow> features \<Rightarrow> nat \<Rightarrow> string \<Rightarrow> nat \<Rightarrow> (error + string) \<times> nat" where
  "greedy_loop tok mdl maxlen image_features 0 in_text calls = (Inr in_text, calls)"
| "greedy_loop tok mdl maxlen image_features (Suc n) in_text calls =
     (let sequence = texts_to_sequences tok in_text;
          sequence = pad_sequences maxlen sequence;
          prediction = mdl image_features sequence
      in case argmax prediction of
           Inl e \<Rightarrow> (Inl e, Suc calls)
         | Inr prediction \<Rightarrow>
             (case word_for_id prediction tok of
                None \<Rightarrow> (Inr in_text, Suc calls)
              | Some word \<Rightarrow>
                  if word = ''endseq'' then (Inr in_text, Suc calls)
                  else greedy_loop tok mdl maxlen image_features n
                         (in_text @ '' '' @ word) (Suc calls)))"

definition generate_caption_simple ::
  "ImageCaptionModel \<Rightarrow> features \<Rightarrow> (error + string) \<times> nat" where
  "generate_caption_simple self image_features =
     (case (model self, tokenizer self) of
        (Some mdl, Some tok) \<Rightarrow>
          (case greedy_loop tok mdl (max_length self) image_features (max_length self)
                  ''startseq'' 0 of
             (Inl e, calls) \<Rightarrow> (Inl e, calls)
           | (Inr in_text, calls) \<Rightarrow>
               (Inr (strip (str_replace ''startseq'' [] in_text)), calls))
      | _ \<Rightarrow> (Inl NotReady, 0))"

subsection \<open>generate\_caption\_beam\_search\<close>

type_synonym candidate = "nat list \<times> real"

text \<open>
  The inner loop \<^verbatim>\<open>for seq, score in sequences\<close>; \<open>all_candidates\<close> grows at its end.  Every
  sequence starts with the start token, so \<^verbatim>\<open>seq[-1]\<close> is \<open>last seq\<close>.  \<^verbatim>\<open>np.log\<close> is the
  logarithm of the reals and \<^verbatim>\<open>1e-8\<close> is \<open>1 / 100000000\<close>.
\<close>

fun candidates_loop ::
  "tokenizer \<Rightarrow> keras_model \<Rightarrow> nat \<Rightarrow> features \<Rightarrow> nat \<Rightarrow> candidate list \<Rightarrow> candidate list \<Rightarrow> nat
     \<Rightarrow> candidate list \<times> nat" where
  "candidates_loop tok mdl maxlen image_features beam_width [] all_candidates calls =
     (all_candidates, calls)"
| "candidates_loop tok mdl maxlen image_features beam_width ((seq, score) # sequences)
     all_candidates calls =
     (if length seq \<ge> maxlen \<or> last seq = word_index_get tok ''endseq'' 2
      then candidates_loop tok mdl maxlen image_features beam_width sequences
             (all_candidates @ [(seq, score)]) calls
      else
        (let padded_seq = seq @ replicate (maxlen - length seq) 0;
             predictions = mdl image_features padded_seq;
             top_indices = last_n beam_width (argsort predictions)
         in candidates_loop tok mdl maxlen image_features beam_width sequences
              (all_candidates @
                 map (\<lambda>idx. (seq @ [idx], score + ln (predictions ! idx + 1 / 100000000)))
                   top_indices)
              (Suc calls)))"

text \<open>
  The outer loop \<^verbatim>\<open>for _ in range(self.max_length)\<close> with \<open>n\<close> iterations left.
  \<^verbatim>\<open>all_candidates.sort(key=lambda x: x[1], reverse=True)\<close> is a stable sort by descending
  score.
\<close>

fun beam_loop ::
  "tokenizer \<Rightarrow> keras_model \<Rightarrow> nat \<Rightarrow> features \<Rightarrow> nat \<Rightarrow> nat \<Rightarrow> candidate list \<Rightarrow> nat
     \<Rightarrow> candidate list \<times> nat" where
  "beam_loop tok mdl maxlen image_features beam_width 0 sequences calls = (sequences, calls)"
| "beam_loop tok mdl maxlen image_features beam_width (Suc n) sequences calls =
     (case candidates_loop tok mdl maxlen image_features beam_width sequences [] calls of
        (all_candidates, calls') \<Rightarrow>
          (let sequences' = take beam_width (sort_key (\<lambda>x. - snd x) all_candidates)
           in if list_all (\<lambda>seq. last (fst seq) = word_index_get tok ''endseq'' 2) sequences'
              then (sequences', calls')
              else beam_loop tok mdl maxlen image_features beam_width n sequences' calls'))"

text \<open>The loop \<^verbatim>\<open>for word_id in best_sequence\<close> that collects \<open>caption_words\<close>.\<close>

fun caption_words :: "tokenizer \<Rightarrow> nat list \<Rightarrow> string list" where
  "caption_words tok [] = []"
| "caption_words tok (word_id # best_sequence) =
     (case word_for_id word_id tok of
        None \<Rightarrow> []
      | Some word \<Rightarrow>
          if word = ''endseq'' then []
          else if word \<noteq> ''startseq'' then word # caption_words tok best_sequence
          else caption_words tok best_sequence)"

definition generate_caption_beam_search ::
  "ImageCaptionModel \<Rightarrow> features \<Rightarrow> nat \<Rightarrow> (error + string) \<times> nat" where
  "generate_caption_beam_search self image_features beam_width =
     (case (model self, tokenizer self) of
        (Some mdl, Some tok) \<Rightarrow>
          (let start_token = word_index_get tok ''startseq'' 1
           in case beam_loop tok mdl (max_length self) image_features beam_width
                     (max_length self) [([start_token], 0)] 0 of
                ([], calls) \<Rightarrow> (Inl IndexError, calls)
              | (best # _, calls) \<Rightarrow>
                  (Inr (join_space (caption_words tok (fst best))), calls))
      | _ \<Rightarrow> (Inl NotReady, 0))"

section \<open>Reference data\<close>

text \<open>The keyword table that \<open>__init__\<close> builds from \<open>SCENE_CATEGORIES\<close> in config.py.\<close>

definition scene_keywords_config :: keyword_table where
  "scene_keywords_config =
     [(''people'', [''person'', ''man'', ''woman'', ''child'', ''baby'', ''face'', ''human'',
                    ''people'', ''boy'', ''girl'']),
      (''animal'', [''dog'', ''cat'', ''bird'', ''horse'', ''cow'', ''sheep'', ''elephant'', ''lion'',
                    ''tiger'', ''bear'', ''rabbit'', ''fish'', ''pet'']),
      (''food'', [''pizza'', ''burger'', ''sandwich'', ''cake'', ''bread'', ''fruit'', ''apple'',
                  ''banana'', ''food'', ''meal'', ''dish'']),
      (''vehicle'', [''car'', ''truck'', ''bus'', ''motorcycle'', ''bicycle'', ''train'', ''airplane'',
                     ''boat'', ''ship'', ''vehicle'']),
      (''nature'', [''tree'', ''flower'', ''mountain'', ''beach'', ''ocean'', ''forest'', ''grass'',
                    ''sky'', ''cloud'', ''sunset'', ''landscape'']),
      (''architecture'', [''building'', ''house'', ''church'', ''tower'', ''bridge'', ''castle'',
                          ''monument'', ''structure'']),
      (''indoor'', [''room'', ''kitchen'', ''bedroom'', ''office'', ''restaurant'', ''store'',
                    ''museum'', ''interior'']),
      (''outdoor'', [''park'', ''street'', ''road'', ''garden'', ''field'', ''landscape'',
                     ''outdoor''])]"

text \<open>
  The basic scoring as the specification words it, for comparison with
  \<open>categorize_scene\<close>: a prediction counts for a category when its label contains a keyword
  as a substring, case-insensitively.  \<open>lower\<close> maps the letters A to Z to a to z.
\<close>

definition lower_char :: "char \<Rightarrow> char" where
  "lower_char c =
     (if (65::nat) \<le> of_char c \<and> of_char c \<le> (90::nat)
      then (case c of Char b0 b1 b2 b3 b4 b5 b6 b7 \<Rightarrow> Char b0 b1 b2 b3 b4 True b6 b7)
      else c)"

definition lower :: "string \<Rightarrow> string" where
  "lower s = map lower_char s"

definition count_score_spec :: "string list \<Rightarrow> string list \<Rightarrow> nat" where
  "count_score_spec keywords predictions =
     length (filter (\<lambda>pred. list_ex (\<lambda>keyword. str_in (lower keyword) (lower pred)) keywords)
               predictions)"

definition categorize_scene_spec :: "keyword_table \<Rightarrow> string list \<Rightarrow> string \<times> real" where
  "categorize_scene_spec scene_keywords predictions =
     (case map (\<lambda>(category, keywords). (category, count_score_spec keywords predictions))
             scene_keywords of
        [] \<Rightarrow> (''general'', 0.5)
      | c # cs \<Rightarrow>
          (let best = max_by c cs
           in if snd best = 0 then (''general'', 0.5) else (fst best, 0.7)))"

text \<open>
  A small vocabulary and two stepping functions for concrete runs.  \<open>lookup_words\<close> is what
  \<open>texts_to_sequences\<close> of Keras does on a text of lower-case words separated by spaces:
  each word of the vocabulary gives its id, any other word is dropped.
\<close>

fun split_words :: "string \<Rightarrow> string \<Rightarrow> string list" where
  "split_words cur [] = (if cur = [] then [] else [cur])"
| "split_words cur (c # s) =
     (if c = CHR '' '' then (if cur = [] then split_words [] s else cur # split_words [] s)
      else split_words (cur @ [c]) s)"

definition lookup_words :: "(string \<times> nat) list \<Rightarrow> string \<Rightarrow> nat list" where
  "lookup_words wi text =
     concat (map (\<lambda>w. case map_of wi w of None \<Rightarrow> [] | Some i \<Rightarrow> [i]) (split_words [] text))"

definition demo_index :: "(string \<times> nat) list" where
  "demo_index = [(''startseq'', 1), (''endseq'', 2), (''a'', 3), (''dog'', 4)]"

definition demo_tokenizer :: tokenizer where
  "demo_tokenizer = \<lparr>word_index = demo_index, texts_to_sequences = lookup_words demo_index\<rparr>"

text \<open>A stepping function that always scores the word "a" (id 3) highest.\<close>

definition always_a :: keras_model where
  "always_a image_features seq = [0, 0.1, 0.1, 0.7, 0.1]"

text \<open>A stepping function that always returns the one-hot distribution on \<open>endseq\<close> (id 2).\<close>

definition always_end :: keras_model where
  "always_end image_features seq = [0, 0, 1, 0, 0]"

definition demo_self :: "nat \<Rightarrow> keras_model \<Rightarrow> ImageCaptionModel" where
  "demo_self L m = \<lparr>max_length = L, tokenizer = Some demo_tokenizer, model = Some m\<rparr>"

text \<open>
  The stepping function of the specification's scenario: "a", then "dog", then
  \<open>endseq\<close>.  It looks only at which ids occur in the input, not at their positions.
\<close>

definition a_dog_end :: keras_model where
  "a_dog_end image_features seq =
     (if 4 \<in> set seq then [0, 0.1, 0.7, 0.1, 0.1]
      else if 3 \<in> set seq then [0, 0.1, 0.1, 0.1, 0.7]
      else [0, 0.1, 0.1, 0.7, 0.1])"

text \<open>A stepping function whose maximum is shared by "a" (id 3) and "dog" (id 4).\<close>

definition tie_a_dog :: keras_model where
  "tie_a_dog image_features seq = [0, 0.1, 0.1, 0.4, 0.4]"

text \<open>
  A stepping function that looks at the first entry of its padded input: "a" when it is
  the padding value 0, \<open>endseq\<close> otherwise.
\<close>

definition front_sensitive :: keras_model where
  "front_sensitive image_features seq =
     (if take 1 seq = [0] then [0, 0.1, 0.1, 0.7, 0.1] else [0, 0.1, 0.7, 0.1, 0.1])"

text \<open>The one-hot distribution of length \<open>n\<close> on the id \<open>e\<close>.\<close>

definition one_hot :: "nat \<Rightarrow> nat \<Rightarrow> real list" where
  "one_hot n e = map (\<lambda>j. if j = e then 1 else 0) [0..<n]"

section \<open>Conditions on the vocabulary and on the stepping function\<close>

text \<open>
  The invariant of a vocabulary: the words are distinct (it is a dict), the ids are unique,
  and the reserved tokens \<open>startseq\<close> and \<open>endseq\<close> are present.
\<close>

definition vocabulary_ok :: "tokenizer \<Rightarrow> bool" where
  "vocabulary_ok tok =
     (distinct (map fst (word_index tok)) \<and> distinct (map snd (word_index tok))
      \<and> ''startseq'' \<in> fst ` set (word_index tok) \<and> ''endseq'' \<in> fst ` set (word_index tok))"

text \<open>
  The words of a fitted Keras tokenizer: not empty, without white space, and only the start
  token itself contains the text \<open>startseq\<close>.
\<close>

definition plain_words :: "tokenizer \<Rightarrow> bool" where
  "plain_words tok =
     (\<forall>w \<in> fst ` set (word_index tok).
        w \<noteq> [] \<and> (\<forall>c \<in> set w. \<not> is_space c) \<and> (str_in ''startseq'' w \<longrightarrow> w = ''startseq''))"

text \<open>
  \<open>texts_to_sequences\<close> maps the text \<open>startseq w1 ... wk\<close> of vocabulary words to
  the ids of these words.
\<close>

definition encodes_text :: "tokenizer \<Rightarrow> bool" where
  "encodes_text tok =
     (\<forall>ws. set ws \<subseteq> fst ` set (word_index tok) \<longrightarrow>
        texts_to_sequences tok (join_space (''startseq'' # ws))
          = map (\<lambda>w. word_index_get tok w 0) (''startseq'' # ws))"

text \<open>
  The stepping function gives the same scores whether a sequence of at most \<open>L\<close> ids is
  filled with zeros at the front (as \<open>pad_sequences\<close> does for the greedy decoder) or at
  the back (as the beam search does).
\<close>

definition pad_insensitive :: "keras_model \<Rightarrow> features \<Rightarrow> nat \<Rightarrow> bool" where
  "pad_insensitive mdl f L =
     (\<forall>ids. length ids \<le> L \<longrightarrow>
        mdl f (pad_sequences L ids) = mdl f (ids @ replicate (L - length ids) 0))"

text \<open>The scores are not empty and one entry is strictly larger than all others.\<close>

definition unique_maximum :: "real list \<Rightarrow> bool" where
  "unique_maximum p = (\<exists>i < length p. \<forall>j < length p. j \<noteq> i \<longrightarrow> p ! j < p ! i)"

section \<open>Auxiliary notions for the proofs about the decoder\<close>

text \<open>
  One iteration of the beam search in closed form.  A candidate is finished when the
  guard of the inner loop carries it forward; \<open>expand\<close> is what the inner loop appends
  to \<open>all_candidates\<close> for one candidate, and \<open>beam_step\<close> is the next frontier.
\<close>

definition finished :: "tokenizer \<Rightarrow> nat \<Rightarrow> candidate \<Rightarrow> bool" where
  "finished tok maxlen c =
     (length (fst c) \<ge> maxlen \<or> last (fst c) = word_index_get tok ''endseq'' 2)"

definition log_prob :: "real \<Rightarrow> real" where
  "log_prob p = ln (p + 1 / 100000000)"

definition expand ::
  "tokenizer \<Rightarrow> keras_model \<Rightarrow> nat \<Rightarrow> features \<Rightarrow> nat \<Rightarrow> candidate \<Rightarrow> candidate list" where
  "expand tok mdl maxlen image_features beam_width c =
     (if finished tok maxlen c then [c]
      else map (\<lambda>idx. (fst c @ [idx],
                  snd c + log_prob (mdl image_features
                                      (fst c @ replicate (maxlen - length (fst c)) 0) ! idx)))
             (last_n beam_width
                (argsort (mdl image_features (fst c @ replicate (maxlen - length (fst c)) 0)))))"

definition beam_step ::
  "tokenizer \<Rightarrow> keras_model \<Rightarrow> nat \<Rightarrow> features \<Rightarrow> nat \<Rightarrow> candidate list \<Rightarrow> candidate list" where
  "beam_step tok mdl L f w F =
     take w (sort_key (\<lambda>x. - snd x) (concat (map (expand tok mdl L f w) F)))"

text \<open>
  The invariant of the beam search under a stepping function that always returns the
  one-hot distribution on \<open>endseq\<close>: the frontier starts with the candidate
  \<open>[start, end]\<close>, and every other candidate has a smaller score.
\<close>

definition end_bound :: "nat \<Rightarrow> candidate \<Rightarrow> bool" where
  "end_bound e c =
     (snd c \<le> log_prob 0 + log_prob 1 \<and> (last (fst c) \<noteq> e \<longrightarrow> snd c \<le> log_prob 0))"

definition end_first :: "nat \<Rightarrow> nat \<Rightarrow> candidate list \<Rightarrow> bool" where
  "end_first s e F =
     (\<exists>rest. F = ([s, e], log_prob 1) # rest
        \<and> (\<forall>c \<in> set rest. c = ([s, e], log_prob 1) \<or> end_bound e c))"

text \<open>
  The text that the greedy decoder holds after it has appended the words \<open>ws\<close>, the ids
  of that text, and the words that \<open>n\<close> further greedy steps append to a sequence of ids.
\<close>

definition text_of :: "string list \<Rightarrow> string" where
  "text_of ws = ''startseq'' @ concat (map (\<lambda>w. '' '' @ w) ws)"

definition ids_of :: "tokenizer \<Rightarrow> string list \<Rightarrow> nat list" where
  "ids_of tok ws = map (\<lambda>w. word_index_get tok w 0) (''startseq'' # ws)"

fun words_from ::
  "tokenizer \<Rightarrow> keras_model \<Rightarrow> nat \<Rightarrow> features \<Rightarrow> nat \<Rightarrow> nat list \<Rightarrow> string list" where
  "words_from tok mdl L f 0 ids = []"
| "words_from tok mdl L f (Suc n) ids =
     (case argmax (mdl f (ids @ replicate (L - length ids) 0)) of
        Inl _ \<Rightarrow> []
      | Inr i \<Rightarrow>
          (case word_for_id i tok of
             None \<Rightarrow> []
           | Some w \<Rightarrow> if w = ''endseq'' then [] else w # words_from tok mdl L f n (ids @ [i])))"

text \<open>No id of the sequence stops the decoding of words.\<close>

definition clean :: "tokenizer \<Rightarrow> nat list \<Rightarrow> bool" where
  "clean tok ids = (\<forall>i \<in> set ids. \<exists>w. word_for_id i tok = Some w \<and> w \<noteq> ''endseq'')"

section \<open>Properties of the scene classifier\<close>

subsection \<open>Substring test\<close>

lemma startswith_iff: "startswith s k \<longleftrightarrow> (\<exists>b. s = k @ b)"
  by (induction s k rule: startswith.induct) auto

lemma str_in_iff: "str_in k s \<longleftrightarrow> (\<exists>a b. s = a @ k @ b)"
proof (induction s)
  case Nil
  then show ?case by auto
next
  case (Cons c s)
  show ?case
  proof
    assume "str_in k (c # s)"
    then consider "startswith (c # s) k" | "str_in k s" by auto
    then show "\<exists>a b. c # s = a @ k @ b"
    proof cases
      case 1
      then obtain b where "c # s = k @ b" by (auto simp: startswith_iff)
      then have "c # s = [] @ k @ b" by simp
      then show ?thesis by blast
    next
      case 2
      then obtain a b where "s = a @ k @ b" using Cons.IH by blast
      then have "c # s = (c # a) @ k @ b" by simp
      then show ?thesis by blast
    qed
  next
    assume "\<exists>a b. c # s = a @ k @ b"
    then obtain a b where ab: "c # s = a @ k @ b" by blast
    show "str_in k (c # s)"
    proof (cases a)
      case Nil
      then have "startswith (c # s) k" using ab by (auto simp: startswith_iff)
      then show ?thesis by simp
    next
      case (Cons x a')
      then have "s = a' @ k @ b" using ab by simp
      then have "str_in k s" using Cons.IH by blast
      then show ?thesis by simp
    qed
  qed
qed

lemma any_keyword_in_iff:
  "any_keyword_in keywords pred \<longleftrightarrow> (\<exists>k \<in> set keywords. \<exists>a b. pred = a @ k @ b)"
  by (simp add: any_keyword_in_def list_ex_iff str_in_iff)

subsection \<open>The first maximum\<close>

lemma max_by_mem: "max_by b xs \<in> set (b # xs)"
  by (induction xs arbitrary: b) (auto split: if_splits)

lemma max_by_ge_acc: "snd b \<le> snd (max_by b xs)"
proof (induction xs arbitrary: b)
  case Nil
  then show ?case by simp
next
  case (Cons x xs)
  show ?case using Cons.IH[of x] Cons.IH[of b] by (auto split: if_splits)
qed

lemma max_by_max: "y \<in> set (b # xs) \<Longrightarrow> snd y \<le> snd (max_by b xs)"
proof (induction xs arbitrary: b)
  case Nil
  then show ?case by simp
next
  case (Cons x xs)
  from Cons.prems consider "y = b" | "y = x" | "y \<in> set xs" by auto
  then show ?case
  proof cases
    case 1
    then show ?thesis using max_by_ge_acc[of b "x # xs"] by simp
  next
    case 2
    show ?thesis
      using max_by_ge_acc[of "if snd b < snd x then x else b" xs] 2 by (auto split: if_splits)
  next
    case 3
    then show ?thesis using Cons.IH[of "if snd b < snd x then x else b"] by simp
  qed
qed

subsection \<open>categorize\_scene\<close>

lemma count_score_card:
  "count_score keywords predictions =
     card {i. i < length predictions \<and> (\<exists>k \<in> set keywords. \<exists>a b. predictions ! i = a @ k @ b)}"
  by (simp add: count_score_def length_filter_conv_card any_keyword_in_iff)

lemma categorize_scene_cases:
  fixes scene_keywords predictions
  defines "scores \<equiv>
    map (\<lambda>(category, keywords). (category, count_score keywords predictions)) scene_keywords"
  shows "(scene_keywords = [] \<and> categorize_scene scene_keywords predictions = (''general'', 0.5))
       \<or> (\<exists>best \<in> set scores. (\<forall>y \<in> set scores. snd y \<le> snd best) \<and>
             categorize_scene scene_keywords predictions
               = (if snd best > 0 then (fst best, 0.7) else (''general'', 0.5)))"
proof (cases scene_keywords)
  case Nil
  then show ?thesis by (simp add: categorize_scene_def)
next
  case (Cons x xs)
  then obtain c cs where sc: "scores = c # cs" by (auto simp: scores_def)
  have m: "max_by c cs \<in> set scores" using max_by_mem[of c cs] sc by simp
  have mx: "\<forall>y \<in> set scores. snd y \<le> snd (max_by c cs)" using max_by_max[of _ c cs] sc by simp
  have "categorize_scene scene_keywords predictions
          = (if snd (max_by c cs) > 0 then (fst (max_by c cs), 0.7) else (''general'', 0.5))"
    using sc unfolding categorize_scene_def scores_def by (simp add: Let_def)
  with m mx show ?thesis by blast
qed

lemma cfg_counts_cardigan:
  "\<forall>(c, kws) \<in> set scene_keywords_config. count_score kws [''Cardigan''] = 0"
  by (simp add: scene_keywords_config_def count_score_def any_keyword_in_def)

lemma cfg_counts_tabby:
  "\<exists>(c, kws) \<in> set scene_keywords_config. 0 < count_score kws [''tabby_cat'', ''Cardigan'']"
  by (simp add: scene_keywords_config_def count_score_def any_keyword_in_def)

text \<open>
  Claim C6, as amended.  For every keyword table and every prediction list, also the empty
  one, \<open>categorize_scene\<close> counts for each category the predictions whose label contains
  at least one keyword of the category as a substring, the characters compared as they are
  (case-sensitively): the count is the number of ranks \<open>i\<close> whose label is
  \<open>a @ k @ b\<close> for a keyword \<open>k\<close>.  When every count is 0 the result is
  \<open>(general, 0.5)\<close>; otherwise it is a category of maximal count with the fixed confidence
  0.7.  On the empty prediction list the result is \<open>(general, 0.5)\<close>.  The function is
  total: it has no error result.
\<close>

theorem categorize_scene_counts:
  "categorize_scene scene_keywords [] = (''general'', 0.5)
   \<and> count_score keywords predictions =
       card {i. i < length predictions \<and> (\<exists>k \<in> set keywords. \<exists>a b. predictions ! i = a @ k @ b)}
   \<and> ((\<forall>(c, kws) \<in> set scene_keywords. count_score kws predictions = 0) \<longrightarrow>
        categorize_scene scene_keywords predictions = (''general'', 0.5))
   \<and> ((\<exists>(c, kws) \<in> set scene_keywords. 0 < count_score kws predictions) \<longrightarrow>
        (\<exists>(c, kws) \<in> set scene_keywords.
            categorize_scene scene_keywords predictions = (c, 0.7)
            \<and> 0 < count_score kws predictions
            \<and> (\<forall>(c', kws') \<in> set scene_keywords.
                  count_score kws' predictions \<le> count_score kws predictions)))"
proof (intro conjI impI)
  show "categorize_scene scene_keywords [] = (''general'', 0.5)"
    using categorize_scene_cases[of scene_keywords "[]"]
    by (auto simp: count_score_def)
next
  show "count_score keywords predictions =
       card {i. i < length predictions \<and> (\<exists>k \<in> set keywords. \<exists>a b. predictions ! i = a @ k @ b)}"
    by (rule count_score_card)
next
  assume z: "\<forall>(c, kws) \<in> set scene_keywords. count_score kws predictions = 0"
  show "categorize_scene scene_keywords predictions = (''general'', 0.5)"
    using categorize_scene_cases[of scene_keywords predictions] z by auto
next
  assume "\<exists>(c, kws) \<in> set scene_keywords. 0 < count_score kws predictions"
  then obtain c0 k0 where p: "(c0, k0) \<in> set scene_keywords" "0 < count_score k0 predictions"
    by auto
  let ?scores =
    "map (\<lambda>(category, keywords). (category, count_score keywords predictions)) scene_keywords"
  from p(1) have ne: "scene_keywords \<noteq> []" by auto
  with categorize_scene_cases[of scene_keywords predictions]
  obtain best where b: "best \<in> set ?scores" "\<forall>y \<in> set ?scores. snd y \<le> snd best"
    "categorize_scene scene_keywords predictions
       = (if snd best > 0 then (fst best, 0.7) else (''general'', 0.5))"
    by blast
  from b(1) obtain c kws where ck: "(c, kws) \<in> set scene_keywords"
    "best = (c, count_score kws predictions)" by auto
  have mx: "count_score kws' predictions \<le> count_score kws predictions"
    if "(c', kws') \<in> set scene_keywords" for c' kws'
  proof -
    from that have "(c', count_score kws' predictions) \<in> set ?scores" by force
    with b(2) ck(2) show ?thesis by auto
  qed
  have pos: "0 < count_score kws predictions" using mx[OF p(1)] p(2) by simp
  have "categorize_scene scene_keywords predictions = (c, 0.7)" using b(3) ck(2) pos by simp
  with ck(1) pos mx show "\<exists>(c, kws) \<in> set scene_keywords.
            categorize_scene scene_keywords predictions = (c, 0.7)
            \<and> 0 < count_score kws predictions
            \<and> (\<forall>(c', kws') \<in> set scene_keywords.
                  count_score kws' predictions \<le> count_score kws predictions)"
    by blast
qed

theorem categorize_scene_counts_witness:
  "categorize_scene scene_keywords_config [''Cardigan''] = (''general'', 0.5)
   \<and> (\<exists>(c, kws) \<in> set scene_keywords_config.
            categorize_scene scene_keywords_config [''tabby_cat'', ''Cardigan''] = (c, 0.7)
            \<and> 0 < count_score kws [''tabby_cat'', ''Cardigan'']
            \<and> (\<forall>(c', kws') \<in> set scene_keywords_config.
                  count_score kws' [''tabby_cat'', ''Cardigan'']
                    \<le> count_score kws [''tabby_cat'', ''Cardigan'']))"
  using categorize_scene_counts[of scene_keywords_config "[]" "[''Cardigan'']"]
        categorize_scene_counts[of scene_keywords_config "[]" "[''tabby_cat'', ''Cardigan'']"]
        cfg_counts_cardigan cfg_counts_tabby
  by blast

text \<open>
  The claim as stated fails on the label \<open>Cardigan\<close> (an ImageNet class): it contains
  the vehicle keyword \<open>car\<close> only when case is ignored.  Counted as the specification says,
  the vehicle category has one match and the result is \<open>(vehicle, 0.7)\<close>;
  \<open>categorize_scene\<close> counts no match and returns \<open>(general, 0.5)\<close>.
\<close>

theorem categorize_scene_case_counterexample:
  "count_score_spec [''car'', ''truck'', ''bus'', ''motorcycle'', ''bicycle'', ''train'', ''airplane'',
                     ''boat'', ''ship'', ''vehicle''] [''Cardigan''] = 1
   \<and> count_score [''car'', ''truck'', ''bus'', ''motorcycle'', ''bicycle'', ''train'', ''airplane'',
                     ''boat'', ''ship'', ''vehicle''] [''Cardigan''] = 0
   \<and> categorize_scene_spec scene_keywords_config [''Cardigan''] = (''vehicle'', 0.7)
   \<and> categorize_scene scene_keywords_config [''Cardigan''] = (''general'', 0.5)"
  by (simp add: categorize_scene_spec_def categorize_scene_def scene_keywords_config_def
      count_score_spec_def count_score_def any_keyword_in_def lower_def lower_char_def)

subsection \<open>advanced\_scene\_categorization\<close>

text \<open>
  Claim C1, as amended.  For the predictions \<open>golden_retriever\<close> (0.9) and \<open>dog\<close> (0.05)
  and the keyword table \<open>{animal: [dog]}\<close>, the label \<open>golden_retriever\<close> does not
  contain \<open>dog\<close>, so only the prediction at rank 1 contributes: the weighted score of
  \<open>animal\<close> is \<open>0.9 * 0.05 * 2 = 0.09\<close>, which does not exceed 0.3, and the result is
  \<open>(general, 0.5)\<close>.
\<close>

theorem weighted_scenario:
  "\<not> str_in ''dog'' ''golden_retriever''
   \<and> weighted_score_of [''dog''] [''golden_retriever'', ''dog''] [0.9, 0.05] = 0.9 * 0.05 * 2
   \<and> weighted_score_of [''dog''] [''golden_retriever'', ''dog''] [0.9, 0.05] = 0.09
   \<and> advanced_scene_categorization [(''animal'', [''dog''])] [''golden_retriever'', ''dog''] [0.9, 0.05]
       = (''general'', 0.5)"
  by (simp add: advanced_scene_categorization_def weighted_score_of_def position_weight_def
      confidence_weight_def)

text \<open>The score and the result that the claim states are not the ones computed.\<close>

theorem weighted_scenario_counterexample:
  "weighted_score_of [''dog''] [''golden_retriever'', ''dog''] [0.9, 0.05] \<noteq> 1.89
   \<and> advanced_scene_categorization [(''animal'', [''dog''])] [''golden_retriever'', ''dog''] [0.9, 0.05]
       \<noteq> (''animal'', 1.0)"
  by (simp add: advanced_scene_categorization_def weighted_score_of_def position_weight_def
      confidence_weight_def)

lemma keyword_loop_closed:
  "keyword_loop cs i pred kws acc =
     acc + real (length (filter (\<lambda>k. str_in k pred) kws))
           * (position_weight i * confidence_weight cs i * 2)"
  by (induction kws arbitrary: acc) (simp_all add: algebra_simps)

lemma prediction_loop_mono:
  "acc \<le> acc' \<Longrightarrow>
   (\<forall>j. position_weight j * confidence_weight cs j \<le> position_weight j * confidence_weight cs' j) \<Longrightarrow>
   prediction_loop kws cs i ps acc \<le> prediction_loop kws cs' i ps acc'"
proof (induction ps arbitrary: i acc acc')
  case Nil
  then show ?case by simp
next
  case (Cons p ps)
  have "position_weight i * confidence_weight cs i * 2
          \<le> position_weight i * confidence_weight cs' i * 2"
    using Cons.prems(2) by simp
  then have "keyword_loop cs i p kws acc \<le> keyword_loop cs' i p kws acc'"
    unfolding keyword_loop_closed using Cons.prems(1)
    by (intro add_mono mult_left_mono) simp_all
  then show ?case using Cons.IH Cons.prems(2) by simp
qed

lemma position_weight_nonneg: "i \<le> 10 \<Longrightarrow> 0 \<le> position_weight i"
  by (simp add: position_weight_def)

lemma confidence_weight_update:
  "confidence_weight (cs[r := c]) j =
     (if j = r \<and> r < length cs then c else confidence_weight cs j)"
  by (simp add: confidence_weight_def)

text \<open>
  Claim C4, as amended.  For every prediction list and confidence list and every prediction
  at a rank \<open>r \<le> 10\<close> whose label matches at least one keyword of a category: raising
  the confidence of that prediction, with all labels, all other confidences and the keywords
  fixed, never lowers the weighted score accumulated for the category.
\<close>

theorem score_monotone:
  assumes "r < length predictions" and "r < length confidence_scores"
    and "any_keyword_in keywords (predictions ! r)"
    and "r \<le> 10" and "confidence_scores ! r \<le> c'"
  shows "weighted_score_of keywords predictions confidence_scores
           \<le> weighted_score_of keywords predictions (confidence_scores[r := c'])"
  unfolding weighted_score_of_def
proof (rule prediction_loop_mono)
  show "(0::real) \<le> 0" by simp
  show "\<forall>j. position_weight j * confidence_weight confidence_scores j
          \<le> position_weight j * confidence_weight (confidence_scores[r := c']) j"
  proof
    fix j
    show "position_weight j * confidence_weight confidence_scores j
          \<le> position_weight j * confidence_weight (confidence_scores[r := c']) j"
    proof (cases "j = r")
      case True
      have "confidence_weight confidence_scores r \<le> c'"
        using assms(2,5) by (simp add: confidence_weight_def)
      then show ?thesis using True assms(2,4) position_weight_nonneg[of r]
        by (simp add: confidence_weight_update mult_left_mono)
    next
      case False
      then show ?thesis by (simp add: confidence_weight_update)
    qed
  qed
qed

theorem score_monotone_witness:
  "(1::nat) < length [''golden_retriever'', ''dog''] \<and> (1::nat) < length [0.9, 0.05 :: real]
   \<and> any_keyword_in [''dog''] ([''golden_retriever'', ''dog''] ! 1) \<and> (1::nat) \<le> 10
   \<and> [0.9, 0.05 :: real] ! 1 \<le> 0.5
   \<and> weighted_score_of [''dog''] [''golden_retriever'', ''dog''] [0.9, 0.05]
       \<le> weighted_score_of [''dog''] [''golden_retriever'', ''dog''] ([0.9, 0.05][1 := 0.5])"
  using score_monotone[of 1 "[''golden_retriever'', ''dog'']" "[0.9, 0.05]" "[''dog'']" "0.5"]
  by (simp add: any_keyword_in_def)

text \<open>
  The claim as stated fails at rank 11, where the position weight is negative: with twelve
  predictions of which the last matches, raising its confidence from 0.1 to 0.4 lowers the
  score of the category.
\<close>

theorem score_monotone_counterexample:
  "weighted_score_of [''dog''] (replicate 11 ''cup'' @ [''dog''])
       ((replicate 11 0.5 @ [0.1])[11 := 0.4])
     < weighted_score_of [''dog''] (replicate 11 ''cup'' @ [''dog'']) (replicate 11 0.5 @ [0.1])"
  by (simp add: weighted_score_of_def position_weight_def confidence_weight_def eval_nat_numeral)

text \<open>
  Claim C5, as amended.  For every prediction at 0-indexed rank \<open>i\<close>, the position weight
  applied to each keyword match of that prediction is \<open>1.0 - i * 0.1\<close>, with no lower
  bound.  It equals \<open>max(0, 1.0 - i * 0.1)\<close> exactly for the ranks \<open>i \<le> 10\<close>, and it is
  non-negative exactly for those ranks.
\<close>

theorem position_weight_value:
  "position_weight i = 1 - real i / 10
   \<and> (position_weight i = max 0 (1.0 - real i * 0.1) \<longleftrightarrow> i \<le> 10)
   \<and> (0 \<le> position_weight i \<longleftrightarrow> i \<le> 10)
   \<and> keyword_loop cs i pred [k] acc =
       (if str_in k pred then acc + (1 - real i / 10) * confidence_weight cs i * 2 else acc)"
  by (auto simp: position_weight_def max_def)

theorem position_weight_value_witness:
  "position_weight 3 = max 0 (1.0 - real 3 * 0.1) \<and> 0 \<le> position_weight 3
   \<and> keyword_loop [0.9, 0.8, 0.7, 0.6] 3 ''hot_dog'' [''dog''] 0 = (1 - 3 / 10) * 0.6 * 2"
  using position_weight_value[of 3 "[0.9, 0.8, 0.7, 0.6]" "''hot_dog''" "''dog''" 0]
  by (simp add: confidence_weight_def)

text \<open>At rank 11 the weight is negative, and so differs from \<open>max(0, 1.0 - 11 * 0.1) = 0\<close>.\<close>

theorem position_weight_counterexample:
  "position_weight 11 \<noteq> max 0 (1.0 - real 11 * 0.1) \<and> position_weight 11 < 0
   \<and> keyword_loop (replicate 12 0.5) 11 ''dog'' [''dog''] 0 < 0"
  by (simp add: position_weight_def confidence_weight_def)

subsection \<open>\_extract\_contextual\_info\<close>

lemma context_step_buckets:
  "set (primary_objects (context_step cs i p ctx))
     \<subseteq> set (primary_objects ctx) \<union> {replace_underscore p}"
  "set (secondary_objects (context_step cs i p ctx))
     \<subseteq> set (secondary_objects ctx) \<union> {replace_underscore p}"
  "set (environment (context_step cs i p ctx))
     \<subseteq> set (environment ctx) \<union> {replace_underscore p}"
  "set (activity_indicators (context_step cs i p ctx))
     \<subseteq> set (activity_indicators ctx) \<union> {replace_underscore p}"
  "set (mood_indicators (context_step cs i p ctx))
     \<subseteq> set (mood_indicators ctx) \<union> {replace_underscore p}"
  by (auto simp: context_step_def Let_def)

lemma context_loop_buckets:
  "set (primary_objects (context_loop cs i ps ctx))
     \<subseteq> set (primary_objects ctx) \<union> replace_underscore ` set ps
   \<and> set (secondary_objects (context_loop cs i ps ctx))
     \<subseteq> set (secondary_objects ctx) \<union> replace_underscore ` set ps
   \<and> set (environment (context_loop cs i ps ctx))
     \<subseteq> set (environment ctx) \<union> replace_underscore ` set ps
   \<and> set (activity_indicators (context_loop cs i ps ctx))
     \<subseteq> set (activity_indicators ctx) \<union> replace_underscore ` set ps
   \<and> set (mood_indicators (context_loop cs i ps ctx))
     \<subseteq> set (mood_indicators ctx) \<union> replace_underscore ` set ps"
proof (induction ps arbitrary: i ctx)
  case Nil
  then show ?case by simp
next
  case (Cons p ps)
  show ?case
    using Cons.IH[of "Suc i" "context_step cs i p ctx"] context_step_buckets[of cs i p ctx]
    by (simp only: context_loop.simps list.set image_insert) blast
qed

lemma set_take_nth: "x \<in> set (take n xs) \<Longrightarrow> \<exists>i. i < n \<and> i < length xs \<and> x = xs ! i"
  by (auto simp: in_set_conv_nth)

lemma context_step_cong:
  "confidence_weight cs i = confidence_weight cs' i \<Longrightarrow>
   context_step cs i p ctx = context_step cs' i p ctx"
  by (simp add: context_step_def confidence_weight_def)

lemma context_loop_cong:
  "\<forall>j. i \<le> j \<and> j < i + length ps \<longrightarrow> confidence_weight cs j = confidence_weight cs' j \<Longrightarrow>
   context_loop cs i ps ctx = context_loop cs' i ps ctx"
proof (induction ps arbitrary: i ctx)
  case Nil
  then show ?case by simp
next
  case (Cons p ps)
  have "confidence_weight cs i = confidence_weight cs' i" using Cons.prems by simp
  then have s: "context_step cs i p ctx = context_step cs' i p ctx" by (rule context_step_cong)
  have "\<forall>j. Suc i \<le> j \<and> j < Suc i + length ps \<longrightarrow>
          confidence_weight cs j = confidence_weight cs' j"
    using Cons.prems by simp
  from Cons.IH[OF this] s show ?case by simp
qed

lemma take_confidence_weight:
  assumes "take n cs = take n cs'" and "j < n"
  shows "confidence_weight cs j = confidence_weight cs' j"
proof -
  have l: "min n (length cs) = min n (length cs')"
    using arg_cong[OF assms(1), of length] by simp
  then have lt: "j < length cs \<longleftrightarrow> j < length cs'" using assms(2) by (simp add: min_def split: if_splits)
  show ?thesis
  proof (cases "j < length cs")
    case True
    then have "cs ! j = take n cs ! j" "cs' ! j = take n cs' ! j" using assms(2) lt by simp_all
    then show ?thesis using True lt assms(1) by (simp add: confidence_weight_def)
  next
    case False
    then show ?thesis using lt by (simp add: confidence_weight_def)
  qed
qed

lemma extract_cong:
  assumes "take 8 predictions = take 8 predictions'" and "take 8 cs = take 8 cs'"
  shows "extract_contextual_info predictions cs = extract_contextual_info predictions' cs'"
proof -
  have "\<forall>j. 0 \<le> j \<and> j < 0 + length (take 8 predictions') \<longrightarrow>
          confidence_weight cs j = confidence_weight cs' j"
    using take_confidence_weight[OF assms(2)] by simp
  from context_loop_cong[OF this] show ?thesis
    using assms(1) by (simp add: extract_contextual_info_def)
qed

text \<open>
  Claim C10.  Contextual extraction considers only the first 8 ranked predictions: two
  inputs that agree on the first 8 labels and on the first 8 confidences give the same
  buckets, whatever the labels and confidences from rank 8 on, and every entry of \<open>primary_objects\<close>, \<open>secondary_objects\<close>,
  \<open>environment\<close>, \<open>activity_indicators\<close> and \<open>mood_indicators\<close> is the label (with
  underscores replaced by spaces) of a prediction at a rank below 8.
\<close>

theorem extract_only_first_eight:
  "(take 8 predictions = take 8 predictions' \<and> take 8 cs = take 8 cs' \<longrightarrow>
      extract_contextual_info predictions cs = extract_contextual_info predictions' cs')
   \<and> (\<forall>x \<in> set (primary_objects (extract_contextual_info predictions cs))
            \<union> set (secondary_objects (extract_contextual_info predictions cs))
            \<union> set (environment (extract_contextual_info predictions cs))
            \<union> set (activity_indicators (extract_contextual_info predictions cs))
            \<union> set (mood_indicators (extract_contextual_info predictions cs)).
        \<exists>i. i < 8 \<and> i < length predictions \<and> x = replace_underscore (predictions ! i))"
proof (intro conjI impI ballI)
  assume "take 8 predictions = take 8 predictions' \<and> take 8 cs = take 8 cs'"
  then show "extract_contextual_info predictions cs = extract_contextual_info predictions' cs'"
    using extract_cong by blast
next
  fix x
  let ?r = "extract_contextual_info predictions cs"
  assume "x \<in> set (primary_objects ?r) \<union> set (secondary_objects ?r) \<union> set (environment ?r)
            \<union> set (activity_indicators ?r) \<union> set (mood_indicators ?r)"
  then have "x \<in> replace_underscore ` set (take 8 predictions)"
    using context_loop_buckets[of cs 0 "take 8 predictions"
        "\<lparr>primary_objects = [], secondary_objects = [], environment = [],
          activity_indicators = [], mood_indicators = []\<rparr>"]
    unfolding extract_contextual_info_def by auto
  then obtain p where "p \<in> set (take 8 predictions)" "x = replace_underscore p" by blast
  then show "\<exists>i. i < 8 \<and> i < length predictions \<and> x = replace_underscore (predictions ! i)"
    using set_take_nth[of p 8 predictions] by blast
qed

theorem extract_only_first_eight_witness:
  "take 8 (''hot_dog'' # replicate 7 ''cup'' @ [''sunny_beach''])
     = take 8 (''hot_dog'' # replicate 7 ''cup'' @ [''cat''])
   \<and> take 8 (replicate 9 (0.9::real)) = take 8 (replicate 8 0.9 @ [0.2])
   \<and> extract_contextual_info (''hot_dog'' # replicate 7 ''cup'' @ [''sunny_beach'']) (replicate 9 0.9)
     = extract_contextual_info (''hot_dog'' # replicate 7 ''cup'' @ [''cat'']) (replicate 8 0.9 @ [0.2])
   \<and> ''hot dog'' \<in> set (primary_objects
         (extract_contextual_info (''hot_dog'' # replicate 7 ''cup'' @ [''sunny_beach''])
            (replicate 9 0.9)))
   \<and> (\<exists>i. i < 8 \<and> ''hot dog''
         = replace_underscore ((''hot_dog'' # replicate 7 ''cup'' @ [''sunny_beach'']) ! i))"
proof -
  let ?P = "''hot_dog'' # replicate 7 ''cup'' @ [''sunny_beach'']"
  let ?P' = "''hot_dog'' # replicate 7 ''cup'' @ [''cat'']"
  let ?cs = "replicate 9 (0.9::real)"
  let ?cs' = "replicate 8 (0.9::real) @ [0.2]"
  have t: "take 8 ?P = take 8 ?P'" by (simp add: eval_nat_numeral)
  have c: "take 8 ?cs = take 8 ?cs'" by (simp add: eval_nat_numeral)
  have m: "''hot dog'' \<in> set (primary_objects (extract_contextual_info ?P ?cs))"
    by (simp add: extract_contextual_info_def eval_nat_numeral context_step_def any_keyword_in_def
        replace_underscore_def object_keywords_def environment_keywords_def activity_keywords_def
        mood_keywords_def)
  from extract_only_first_eight[of ?P ?P' ?cs ?cs'] t c m show ?thesis by blast
qed

section \<open>Properties of the sequence decoder\<close>

subsection \<open>The greedy loop\<close>

lemma argmax_not_NotReady: "argmax p \<noteq> Inl NotReady"
  by (simp add: argmax_def split: list.splits)

lemma greedy_loop_not_NotReady: "fst (greedy_loop tok mdl L f n t c) \<noteq> Inl NotReady"
proof (induction n arbitrary: t c)
  case 0
  then show ?case by simp
next
  case (Suc n)
  show ?case
    using Suc.IH argmax_not_NotReady
    by (auto simp: Let_def split: sum.splits option.splits)
qed

lemma greedy_loop_calls: "snd (greedy_loop tok mdl L f n t c) \<le> c + n"
proof (induction n arbitrary: t c)
  case 0
  then show ?case by simp
next
  case (Suc n)
  have "snd (greedy_loop tok mdl L f n t' (Suc c)) \<le> Suc c + n" for t'
    by (rule Suc.IH)
  then show ?case
    by (auto simp: Let_def split: sum.splits option.splits)
qed

lemma word_for_id_items_mem: "word_for_id_items i items = Some w \<Longrightarrow> (w, i) \<in> set items"
  by (induction items) (auto split: if_splits)

lemma word_for_id_mem: "word_for_id i tok = Some w \<Longrightarrow> (w, i) \<in> set (word_index tok)"
  by (simp add: word_for_id_def word_for_id_items_mem)

lemma greedy_loop_text:
  "greedy_loop tok mdl L f n t c = (Inr t', c') \<Longrightarrow>
   \<exists>ws. length ws \<le> n \<and> set ws \<subseteq> fst ` set (word_index tok)
        \<and> t' = t @ concat (map (\<lambda>w. '' '' @ w) ws)"
proof (induction n arbitrary: t c)
  case 0
  then have "t' = t @ concat (map (\<lambda>w. '' '' @ w) [])" by simp
  then show ?case by (intro exI[of _ "[]"]) simp
next
  case (Suc n)
  let ?p = "mdl f (pad_sequences L (texts_to_sequences tok t))"
  from Suc.prems obtain i where i: "argmax ?p = Inr i"
    by (auto simp: Let_def split: sum.splits)
  show ?case
  proof (cases "word_for_id i tok")
    case None
    with Suc.prems i have "t' = t @ concat (map (\<lambda>w. '' '' @ w) [])" by (simp add: Let_def)
    then show ?thesis by (intro exI[of _ "[]"]) simp
  next
    case (Some word)
    show ?thesis
    proof (cases "word = ''endseq''")
      case True
      with Suc.prems i Some have "t' = t @ concat (map (\<lambda>w. '' '' @ w) [])" by (simp add: Let_def)
      then show ?thesis by (intro exI[of _ "[]"]) simp
    next
      case False
      with Suc.prems i Some
      have "greedy_loop tok mdl L f n (t @ '' '' @ word) (Suc c) = (Inr t', c')"
        by (simp add: Let_def)
      from Suc.IH[OF this] obtain ws where ws: "length ws \<le> n"
        "set ws \<subseteq> fst ` set (word_index tok)"
        "t' = (t @ '' '' @ word) @ concat (map (\<lambda>w. '' '' @ w) ws)" by blast
      have "word \<in> fst ` set (word_index tok)" using word_for_id_mem[OF Some] by force
      with ws show ?thesis by (intro exI[of _ "word # ws"]) simp
    qed
  qed
qed

subsection \<open>One iteration of the beam search\<close>

text \<open>
  The inner loop appends \<open>expand\<close> of every candidate and makes one call of the stepping
  function for every candidate that is not finished.
\<close>

lemma candidates_loop_eq:
  "candidates_loop tok mdl L f w F acc c =
     (acc @ concat (map (expand tok mdl L f w) F),
      c + length (filter (\<lambda>x. \<not> finished tok L x) F))"
proof (induction F arbitrary: acc c)
  case Nil
  then show ?case by simp
next
  case (Cons x F)
  obtain seq score where x: "x = (seq, score)" by (cases x)
  show ?case
    unfolding x
    by (simp add: Cons.IH expand_def finished_def log_prob_def Let_def)
qed

lemma expand_lengths:
  assumes "length (fst c) \<le> max 1 L" and "d \<in> set (expand tok mdl L f w c)"
  shows "length (fst d) \<le> max 1 L"
  using assms by (auto simp: expand_def finished_def split: if_splits)

lemma beam_loop_Suc:
  "beam_loop tok mdl L f w (Suc n) F c =
     (let F' = beam_step tok mdl L f w F;
          c' = c + length (filter (\<lambda>x. \<not> finished tok L x) F)
      in if list_all (\<lambda>seq. last (fst seq) = word_index_get tok ''endseq'' 2) F'
         then (F', c') else beam_loop tok mdl L f w n F' c')"
  by (simp add: candidates_loop_eq beam_step_def Let_def)

lemma beam_step_subset:
  "set (beam_step tok mdl L f w F) \<subseteq> (\<Union>c \<in> set F. set (expand tok mdl L f w c))"
proof -
  have "set (beam_step tok mdl L f w F)
          \<subseteq> set (sort_key (\<lambda>x. - snd x) (concat (map (expand tok mdl L f w) F)))"
    unfolding beam_step_def by (rule set_take_subset)
  then show ?thesis by auto
qed

lemma beam_step_lengths:
  assumes "\<forall>c \<in> set F. length (fst c) \<le> max 1 L"
  shows "\<forall>d \<in> set (beam_step tok mdl L f w F). length (fst d) \<le> max 1 L"
  using assms beam_step_subset[of tok mdl L f w F] expand_lengths[of _ L _ tok mdl f w]
  by blast

lemma beam_step_size: "length (beam_step tok mdl L f w F) \<le> w"
  by (simp add: beam_step_def)

lemma beam_loop_lengths:
  "\<forall>c \<in> set F. length (fst c) \<le> max 1 L \<Longrightarrow>
   \<forall>d \<in> set (fst (beam_loop tok mdl L f w n F c)). length (fst d) \<le> max 1 L"
proof (induction n arbitrary: F c)
  case 0
  then show ?case by simp
next
  case (Suc n)
  have s: "\<forall>d \<in> set (beam_step tok mdl L f w F). length (fst d) \<le> max 1 L"
    using beam_step_lengths[OF Suc.prems] .
  show ?case
    unfolding beam_loop_Suc Let_def
    using s Suc.IH[OF s] by (simp only: split: if_splits) simp
qed

lemma beam_loop_calls:
  "length F \<le> max 1 w \<Longrightarrow> snd (beam_loop tok mdl L f w n F c) \<le> c + n * max 1 w"
proof (induction n arbitrary: F c)
  case 0
  then show ?case by simp
next
  case (Suc n)
  let ?c' = "c + length (filter (\<lambda>x. \<not> finished tok L x) F)"
  have c': "?c' \<le> c + max 1 w"
    using Suc.prems length_filter_le[of "\<lambda>x. \<not> finished tok L x" F] by linarith
  have sz: "length (beam_step tok mdl L f w F) \<le> max 1 w"
    using beam_step_size[of tok mdl L f w F] by simp
  have "snd (beam_loop tok mdl L f w n (beam_step tok mdl L f w F) ?c') \<le> ?c' + n * max 1 w"
    by (rule Suc.IH[OF sz])
  with c' show ?case
    unfolding beam_loop_Suc Let_def by (auto split: if_splits)
qed

subsection \<open>Decoding ids to words\<close>

lemma caption_words_length: "length (caption_words tok seq) \<le> length seq"
  by (induction seq) (auto split: option.splits)

lemma caption_words_vocab: "set (caption_words tok seq) \<subseteq> fst ` set (word_index tok)"
proof (induction seq)
  case Nil
  then show ?case by simp
next
  case (Cons i seq)
  show ?case
  proof (cases "word_for_id i tok")
    case None
    then show ?thesis by simp
  next
    case (Some word)
    have "word \<in> fst ` set (word_index tok)" using word_for_id_mem[OF Some] by force
    with Some Cons.IH show ?thesis by auto
  qed
qed

subsection \<open>Vocabularies\<close>

lemma word_for_id_items_distinct:
  "distinct (map snd items) \<Longrightarrow> (w, i) \<in> set items \<Longrightarrow> word_for_id_items i items = Some w"
  by (induction items) (auto simp: rev_image_eqI)

lemma vocabulary_word_for_id:
  "vocabulary_ok tok \<Longrightarrow> (w, i) \<in> set (word_index tok) \<Longrightarrow> word_for_id i tok = Some w"
  by (simp add: vocabulary_ok_def word_for_id_def word_for_id_items_distinct)

lemma vocabulary_get:
  "vocabulary_ok tok \<Longrightarrow> (w, i) \<in> set (word_index tok) \<Longrightarrow> word_index_get tok w d = i"
  by (simp add: vocabulary_ok_def word_index_get_def)

lemma vocabulary_get_mem:
  assumes "vocabulary_ok tok" and "w \<in> fst ` set (word_index tok)"
  shows "(w, word_index_get tok w d) \<in> set (word_index tok)"
proof -
  from assms(2) obtain i where i: "(w, i) \<in> set (word_index tok)" by auto
  then show ?thesis using vocabulary_get[OF assms(1) i] by simp
qed

lemma vocabulary_start_end:
  assumes "vocabulary_ok tok"
  shows "word_for_id (word_index_get tok ''startseq'' d) tok = Some ''startseq''"
    and "word_for_id (word_index_get tok ''endseq'' d') tok = Some ''endseq''"
    and "word_index_get tok ''startseq'' d \<noteq> word_index_get tok ''endseq'' d'"
proof -
  have s: "(''startseq'', word_index_get tok ''startseq'' d) \<in> set (word_index tok)"
    using assms vocabulary_get_mem by (simp add: vocabulary_ok_def)
  have e: "(''endseq'', word_index_get tok ''endseq'' d') \<in> set (word_index tok)"
    using assms vocabulary_get_mem by (simp add: vocabulary_ok_def)
  show 1: "word_for_id (word_index_get tok ''startseq'' d) tok = Some ''startseq''"
    using vocabulary_word_for_id[OF assms s] .
  show 2: "word_for_id (word_index_get tok ''endseq'' d') tok = Some ''endseq''"
    using vocabulary_word_for_id[OF assms e] .
  show "word_index_get tok ''startseq'' d \<noteq> word_index_get tok ''endseq'' d'"
    using 1 2 by auto
qed

subsection \<open>argmax and argsort at a unique maximum\<close>

lemma argmax_from_keep:
  "\<forall>j < length xs. xs ! j \<le> snd b \<Longrightarrow> argmax_from b i xs = fst b"
proof (induction xs arbitrary: b i)
  case Nil
  then show ?case by simp
next
  case (Cons x xs)
  have "x \<le> snd b" using Cons.prems by force
  moreover have "\<forall>j < length xs. xs ! j \<le> snd b" using Cons.prems by force
  ultimately show ?case using Cons.IH[of b "Suc i"] by simp
qed

lemma argmax_from_unique:
  "k < length xs \<Longrightarrow> \<forall>j < length xs. j \<noteq> k \<longrightarrow> xs ! j < xs ! k \<Longrightarrow> snd b < xs ! k \<Longrightarrow>
   argmax_from b i xs = i + k"
proof (induction xs arbitrary: b i k)
  case Nil
  then show ?case by simp
next
  case (Cons x xs)
  show ?case
  proof (cases k)
    case 0
    have "\<forall>j < length xs. xs ! j \<le> x"
    proof (intro allI impI)
      fix j assume "j < length xs"
      then have "(x # xs) ! Suc j < (x # xs) ! k" using Cons.prems(2) 0 by force
      then show "xs ! j \<le> x" using 0 by simp
    qed
    then have "argmax_from (i, x) (Suc i) xs = i" using argmax_from_keep[of xs "(i, x)"] by simp
    then show ?thesis using 0 Cons.prems(3) by simp
  next
    case (Suc k')
    let ?b = "if snd b < x then (i, x) else b"
    have k': "k' < length xs" using Cons.prems(1) Suc by simp
    have u: "\<forall>j < length xs. j \<noteq> k' \<longrightarrow> xs ! j < xs ! k'"
    proof (intro allI impI)
      fix j assume "j < length xs" "j \<noteq> k'"
      then have "(x # xs) ! Suc j < (x # xs) ! k" using Cons.prems(2) Suc by force
      then show "xs ! j < xs ! k'" using Suc by simp
    qed
    have "x < xs ! k'" using Cons.prems(2) Suc by force
    then have "snd ?b < xs ! k'" using Cons.prems(3) Suc by simp
    from Cons.IH[OF k' u this] show ?thesis using Suc by simp
  qed
qed

lemma argmax_unique:
  assumes "e < length xs" and "\<forall>j < length xs. j \<noteq> e \<longrightarrow> xs ! j < xs ! e"
  shows "argmax xs = Inr e"
proof (cases xs)
  case Nil
  then show ?thesis using assms by simp
next
  case (Cons x ys)
  show ?thesis
  proof (cases e)
    case 0
    have "\<forall>j < length ys. ys ! j \<le> x"
    proof (intro allI impI)
      fix j assume "j < length ys"
      then have "xs ! Suc j < xs ! e" using assms(2) Cons 0 by force
      then show "ys ! j \<le> x" using Cons 0 by simp
    qed
    then show ?thesis using argmax_from_keep[of ys "(0, x)" 1] Cons 0 by (simp add: argmax_def)
  next
    case (Suc k)
    have k: "k < length ys" using assms(1) Cons Suc by simp
    have u: "\<forall>j < length ys. j \<noteq> k \<longrightarrow> ys ! j < ys ! k"
    proof (intro allI impI)
      fix j assume "j < length ys" "j \<noteq> k"
      then have "xs ! Suc j < xs ! e" using assms(2) Cons Suc by force
      then show "ys ! j < ys ! k" using Cons Suc by simp
    qed
    have "x < ys ! k" using assms(2) Cons Suc by force
    then show ?thesis using argmax_from_unique[OF k u, of "(0, x)" 1] Cons Suc
      by (simp add: argmax_def)
  qed
qed

lemma set_argsort: "set (argsort xs) = {0..<length xs}"
  by (simp add: argsort_def)

lemma length_argsort: "length (argsort xs) = length xs"
  by (simp add: argsort_def)

lemma distinct_argsort: "distinct (argsort xs)"
  by (simp add: argsort_def)

lemma sorted_le_last: "sorted xs \<Longrightarrow> x \<in> set xs \<Longrightarrow> x \<le> last (xs :: real list)"
  by (induction xs) auto

lemma last_argsort_unique:
  assumes "e < length xs" and "\<forall>j < length xs. j \<noteq> e \<longrightarrow> xs ! j < xs ! e"
  shows "last (argsort xs) = e"
proof -
  let ?s = "argsort xs"
  have ne: "?s \<noteq> []" using assms(1) length_argsort[of xs] by auto
  have srt: "sorted (map (\<lambda>i. xs ! i) ?s)" by (simp add: argsort_def)
  have "e \<in> set ?s" using assms(1) by (simp add: set_argsort)
  then have "xs ! e \<in> set (map (\<lambda>i. xs ! i) ?s)" by force
  then have "xs ! e \<le> last (map (\<lambda>i. xs ! i) ?s)" using srt sorted_le_last by blast
  then have le: "xs ! e \<le> xs ! (last ?s)" using ne by (simp add: last_map)
  have "last ?s \<in> set ?s" using ne by simp
  then have "last ?s < length xs" by (simp add: set_argsort)
  with le assms(2) show ?thesis by force
qed

lemma last_last_n: "xs \<noteq> [] \<Longrightarrow> last (last_n n xs) = last xs"
proof (cases "n = 0")
  case True
  then show ?thesis by (simp add: last_n_def)
next
  case False
  assume "xs \<noteq> []"
  with False have "length xs - n < length xs" by (cases xs) auto
  then show ?thesis using False by (simp add: last_n_def)
qed

lemma last_n_nonempty: "xs \<noteq> [] \<Longrightarrow> last_n n xs \<noteq> []"
  by (cases "n = 0"; cases xs) (auto simp: last_n_def)

lemma set_last_n: "set (last_n n xs) \<subseteq> set xs"
  by (auto simp: last_n_def dest: in_set_dropD)

lemma one_hot_length: "length (one_hot n e) = n"
  by (simp add: one_hot_def)

lemma one_hot_nth: "i < n \<Longrightarrow> one_hot n e ! i = (if i = e then 1 else 0)"
  by (simp add: one_hot_def)

lemma argmax_one_hot: "e < n \<Longrightarrow> argmax (one_hot n e) = Inr e"
  by (rule argmax_unique) (simp_all add: one_hot_length one_hot_nth)

lemma last_argsort_one_hot: "e < n \<Longrightarrow> last (argsort (one_hot n e)) = e"
  by (rule last_argsort_unique) (simp_all add: one_hot_length one_hot_nth)

subsection \<open>A stepping function that always returns one-hot on endseq\<close>

lemma str_replace_startseq_only: "str_replace ''startseq'' [] ''startseq'' = []"
  by (simp add: str_replace.simps)

lemma strip_Nil: "strip [] = []"
  by (simp add: strip_def)

lemma greedy_end:
  assumes "model self = Some mdl" and "tokenizer self = Some tok"
    and "\<forall>seq. mdl f seq = one_hot n e" and "e < n"
    and "word_for_id e tok = Some ''endseq''"
  shows "generate_caption_simple self f = (Inr [], min 1 (max_length self))"
proof (cases "max_length self")
  case 0
  then show ?thesis using assms(1,2)
    by (simp add: generate_caption_simple_def str_replace_startseq_only strip_Nil)
next
  case (Suc k)
  have "greedy_loop tok mdl (max_length self) f (Suc k) ''startseq'' 0 = (Inr ''startseq'', 1)"
    using assms(3,5) argmax_one_hot[OF assms(4)] by (simp add: Let_def)
  then show ?thesis using assms(1,2) Suc
    by (simp add: generate_caption_simple_def str_replace_startseq_only strip_Nil)
qed

lemma ln_eps_neg: "ln (1 / 100000000 :: real) < 0"
  by simp

lemma ln_eps_pos: "0 < ln (1 + 1 / 100000000 :: real)"
  by simp

lemma hd_sort_key_min:
  fixes f :: "'a \<Rightarrow> real"
  assumes "x \<in> set xs" and "\<forall>y \<in> set xs. y = x \<or> f x < f y"
  shows "\<exists>zs. sort_key f xs = x # zs \<and> set zs \<subseteq> set xs"
proof -
  let ?s = "sort_key f xs"
  have "?s \<noteq> []" using assms(1) by (metis empty_iff empty_set set_sort)
  then obtain h zs where hz: "?s = h # zs" by (cases ?s) auto
  have srt: "sorted (map f ?s)" by simp
  have st: "set ?s = set xs" by simp
  have "x \<in> set ?s" using assms(1) by simp
  then have "f h \<le> f x" using srt hz by auto
  moreover have "h \<in> set xs" using st hz by (metis list.set_intros(1))
  ultimately have "h = x" using assms(2) by force
  moreover have "set zs \<subseteq> set xs" using st hz by (metis set_subset_Cons)
  ultimately show ?thesis using hz by blast
qed

lemma log_prob_0: "log_prob 0 < 0"
  by (simp add: log_prob_def)

lemma log_prob_1: "0 < log_prob 1"
  by (simp add: log_prob_def)

lemma end_bound_score: "end_bound e c \<Longrightarrow> snd c < log_prob 1"
  using log_prob_0 by (simp add: end_bound_def)

lemma expand_end_bound:
  assumes hot: "\<forall>seq. mdl f seq = one_hot n e" and e: "e = word_index_get tok ''endseq'' 2"
    and c: "c = ([s, e], log_prob 1) \<or> end_bound e c"
    and d: "d \<in> set (expand tok mdl L f w c)"
  shows "d = ([s, e], log_prob 1) \<or> end_bound e d"
proof (cases "finished tok L c")
  case True
  then show ?thesis using c d by (simp add: expand_def)
next
  case False
  then have ne: "last (fst c) \<noteq> e" using e by (simp add: finished_def)
  then have cb: "snd c \<le> log_prob 0" using c by (auto simp: end_bound_def)
  from d False obtain idx where idx: "idx \<in> set (last_n w (argsort (one_hot n e)))"
    and dd: "d = (fst c @ [idx], snd c + log_prob (one_hot n e ! idx))"
    using hot by (auto simp: expand_def)
  have "idx < n" using idx set_last_n[of w "argsort (one_hot n e)"]
    by (auto simp: set_argsort one_hot_length)
  then have v: "one_hot n e ! idx = (if idx = e then 1 else 0)" by (rule one_hot_nth)
  show ?thesis
  proof (cases "idx = e")
    case True
    then have "end_bound e d" using dd v cb by (simp add: end_bound_def)
    then show ?thesis ..
  next
    case False
    then have "snd d = snd c + log_prob 0" using dd v by simp
    then have "end_bound e d" using cb log_prob_0 log_prob_1 by (simp add: end_bound_def)
    then show ?thesis ..
  qed
qed

lemma beam_step_end_first:
  assumes hot: "\<forall>seq. mdl f seq = one_hot n e" and e: "e = word_index_get tok ''endseq'' 2"
    and w: "0 < w" and F: "end_first s e F"
  shows "end_first s e (beam_step tok mdl L f w F)"
proof -
  let ?c0 = "([s, e], log_prob 1)"
  from F obtain rest where rest: "F = ?c0 # rest"
    "\<forall>c \<in> set rest. c = ?c0 \<or> end_bound e c" by (auto simp: end_first_def)
  let ?ys = "concat (map (expand tok mdl L f w) rest)"
  have c0: "expand tok mdl L f w ?c0 = [?c0]" using e by (simp add: expand_def finished_def)
  have ys: "\<forall>d \<in> set ?ys. d = ?c0 \<or> end_bound e d"
  proof
    fix d assume "d \<in> set ?ys"
    then obtain c where c: "c \<in> set rest" "d \<in> set (expand tok mdl L f w c)" by auto
    from c(1) rest(2) have "c = ?c0 \<or> end_bound e c" by blast
    then show "d = ?c0 \<or> end_bound e d"
      using expand_end_bound[where mdl=mdl and f=f and n=n and e=e and tok=tok, OF hot e _ c(2)]
      by blast
  qed
  then have le: "\<forall>d \<in> set (sort_key (\<lambda>x. - snd x) ?ys). - snd ?c0 \<le> - snd d"
    using end_bound_score by fastforce
  have "sort_key (\<lambda>x. - snd x) (concat (map (expand tok mdl L f w) F))
          = ?c0 # sort_key (\<lambda>x. - snd x) ?ys"
    using rest(1) c0 insort_is_Cons[OF le] by simp
  then have "beam_step tok mdl L f w F = ?c0 # take (w - 1) (sort_key (\<lambda>x. - snd x) ?ys)"
    using w by (cases w) (simp_all add: beam_step_def)
  moreover have "\<forall>d \<in> set (take (w - 1) (sort_key (\<lambda>x. - snd x) ?ys)). d = ?c0 \<or> end_bound e d"
  proof
    fix d assume "d \<in> set (take (w - 1) (sort_key (\<lambda>x. - snd x) ?ys))"
    then have "d \<in> set (sort_key (\<lambda>x. - snd x) ?ys)" by (rule in_set_takeD)
    then have "d \<in> set ?ys" by simp
    with ys show "d = ?c0 \<or> end_bound e d" by blast
  qed
  ultimately show ?thesis by (simp add: end_first_def)
qed

lemma beam_step_start:
  assumes hot: "\<forall>seq. mdl f seq = one_hot n e" and e: "e = word_index_get tok ''endseq'' 2"
    and w: "0 < w" and en: "e < n" and se: "s \<noteq> e"
  shows "beam_step tok mdl L f w [([s], 0)] = [([s], 0)]
         \<or> end_first s e (beam_step tok mdl L f w [([s], 0)])"
proof (cases "finished tok L ([s], 0)")
  case True
  then have "beam_step tok mdl L f w [([s], 0)] = [([s], 0)]"
    using w by (cases w) (simp_all add: beam_step_def expand_def)
  then show ?thesis ..
next
  case False
  let ?c0 = "([s, e], log_prob 1)"
  let ?top = "last_n w (argsort (one_hot n e))"
  let ?xs = "map (\<lambda>idx. ([s, idx], log_prob (one_hot n e ! idx))) ?top"
  have xs: "expand tok mdl L f w ([s], 0) = ?xs" using False hot by (simp add: expand_def)
  have ne: "argsort (one_hot n e) \<noteq> []" using en length_argsort[of "one_hot n e"]
    by (auto simp: one_hot_length)
  have "last ?top = e" using last_last_n[OF ne] last_argsort_one_hot[OF en] by simp
  moreover have tne: "?top \<noteq> []" using last_n_nonempty[OF ne] .
  ultimately have "e \<in> set ?top" using last_in_set by metis
  then have "([s, e], log_prob (one_hot n e ! e)) \<in> set ?xs" by force
  then have mem: "?c0 \<in> set ?xs" using one_hot_nth[OF en, of e] by simp
  have all: "\<forall>y \<in> set ?xs. y = ?c0 \<or> end_bound e y"
  proof
    fix y assume "y \<in> set ?xs"
    then obtain idx where idx: "idx \<in> set ?top" "y = ([s, idx], log_prob (one_hot n e ! idx))"
      by auto
    have "idx < n" using idx(1) set_last_n[of w "argsort (one_hot n e)"]
      by (auto simp: set_argsort one_hot_length)
    then have v: "one_hot n e ! idx = (if idx = e then 1 else 0)" by (rule one_hot_nth)
    show "y = ?c0 \<or> end_bound e y"
    proof (cases "idx = e")
      case True
      then show ?thesis using idx(2) v by simp
    next
      case False
      then have "end_bound e y" using idx(2) v log_prob_1 by (simp add: end_bound_def)
      then show ?thesis ..
    qed
  qed
  then have "\<forall>y \<in> set ?xs. y = ?c0 \<or> - snd ?c0 < - snd y"
    using end_bound_score by fastforce
  from hd_sort_key_min[OF mem this]
  obtain zs where zs: "sort_key (\<lambda>x. - snd x) ?xs = ?c0 # zs" "set zs \<subseteq> set ?xs" by blast
  have "beam_step tok mdl L f w [([s], 0)] = ?c0 # take (w - 1) zs"
    using w xs zs(1) by (cases w) (simp_all add: beam_step_def)
  moreover have "\<forall>d \<in> set (take (w - 1) zs). d = ?c0 \<or> end_bound e d"
    using all zs(2) by (meson in_set_takeD subsetD)
  ultimately have "end_first s e (beam_step tok mdl L f w [([s], 0)])"
    by (simp add: end_first_def)
  then show ?thesis ..
qed

lemma beam_loop_end_first:
  assumes hot: "\<forall>seq. mdl f seq = one_hot n e" and e: "e = word_index_get tok ''endseq'' 2"
    and w: "0 < w" and en: "e < n" and se: "s \<noteq> e"
  shows "F = [([s], 0)] \<or> end_first s e F \<Longrightarrow>
         fst (beam_loop tok mdl L f w k F c) = [([s], 0)]
         \<or> end_first s e (fst (beam_loop tok mdl L f w k F c))"
proof (induction k arbitrary: F c)
  case 0
  then show ?case by simp
next
  case (Suc k)
  have step: "beam_step tok mdl L f w F = [([s], 0)] \<or> end_first s e (beam_step tok mdl L f w F)"
    using Suc.prems
      beam_step_start[where mdl=mdl and f=f and n=n and e=e and tok=tok, OF hot e w en se]
      beam_step_end_first[where mdl=mdl and f=f and n=n and e=e and tok=tok, OF hot e w]
    by blast
  show ?case
    unfolding beam_loop_Suc Let_def
    using step Suc.IH[OF step] by (simp only: split: if_splits) simp
qed

lemma beam_end:
  assumes "model self = Some mdl" and "tokenizer self = Some tok"
    and ok: "vocabulary_ok tok"
    and hot: "\<forall>seq. mdl f seq = one_hot n (word_index_get tok ''endseq'' 2)"
    and en: "word_index_get tok ''endseq'' 2 < n" and w: "0 < w"
  shows "fst (generate_caption_beam_search self f w) = Inr []"
    and "snd (generate_caption_beam_search self f w) \<le> max_length self * w"
proof -
  let ?s = "word_index_get tok ''startseq'' 1"
  let ?e = "word_index_get tok ''endseq'' 2"
  let ?L = "max_length self"
  let ?r = "beam_loop tok mdl ?L f w ?L [([?s], 0)] 0"
  have se: "?s \<noteq> ?e" using vocabulary_start_end(3)[OF ok] .
  have ws: "word_for_id ?s tok = Some ''startseq''" using vocabulary_start_end(1)[OF ok] .
  have we: "word_for_id ?e tok = Some ''endseq''" using vocabulary_start_end(2)[OF ok] .
  have "fst ?r = [([?s], 0)] \<or> end_first ?s ?e (fst ?r)"
    using beam_loop_end_first[where mdl=mdl and f=f and n=n and e="?e" and tok=tok
        and F="[([?s], 0)]", OF hot refl w en se]
    by simp
  then obtain best rest where br: "fst ?r = best # rest" "fst best = [?s] \<or> fst best = [?s, ?e]"
    by (auto simp: end_first_def)
  have "caption_words tok (fst best) = []" using br(2) ws we by auto
  then show "fst (generate_caption_beam_search self f w) = Inr []"
    using assms(1,2) br(1) by (cases ?r) (simp add: generate_caption_beam_search_def Let_def)
  have "snd ?r \<le> 0 + ?L * max 1 w" by (rule beam_loop_calls) simp
  moreover have "max 1 w = w" using w by simp
  ultimately show "snd (generate_caption_beam_search self f w) \<le> max_length self * w"
    using assms(1,2) by (cases ?r) (auto simp: generate_caption_beam_search_def Let_def split: list.splits)
qed

section \<open>Claims about the sequence decoder\<close>

subsection \<open>Empty captions\<close>

lemma str_replace_startseq_prefix:
  "str_replace ''startseq'' [] (''startseq'' @ r) = str_replace ''startseq'' [] r"
  by (subst str_replace.simps) simp

lemma str_replace_startseq_space:
  "str_replace ''startseq'' [] (CHR '' '' # r) = CHR '' '' # str_replace ''startseq'' [] r"
  by (subst str_replace.simps) simp

lemma str_replace_startseq_Nil: "str_replace ''startseq'' [] [] = []"
  by (subst str_replace.simps) simp

lemma str_replace_only_startseq:
  "set ws \<subseteq> {''startseq''} \<Longrightarrow>
   str_replace ''startseq'' [] (concat (map (\<lambda>w. '' '' @ w) ws)) = replicate (length ws) CHR '' ''"
proof (induction ws)
  case Nil
  then show ?case by (simp add: str_replace_startseq_Nil)
next
  case (Cons w ws)
  then have w: "w = ''startseq''" by simp
  have ih: "str_replace ''startseq'' [] (concat (map (\<lambda>w. '' '' @ w) ws))
              = replicate (length ws) CHR '' ''"
    using Cons by simp
  have "concat (map (\<lambda>w. '' '' @ w) (w # ws))
          = CHR '' '' # (''startseq'' @ concat (map (\<lambda>w. '' '' @ w) ws))"
    using w by simp
  then have "str_replace ''startseq'' [] (concat (map (\<lambda>w. '' '' @ w) (w # ws)))
          = CHR '' '' # str_replace ''startseq'' [] (concat (map (\<lambda>w. '' '' @ w) ws))"
    by (simp only: str_replace_startseq_space str_replace_startseq_prefix)
  then show ?case using ih by simp
qed

lemma strip_spaces: "strip (replicate k CHR '' '') = []"
proof -
  have "dropWhile is_space (replicate k CHR '' '') = []"
    by (simp add: is_space_def)
  then show ?thesis by (simp add: strip_def)
qed

lemma greedy_only_startseq:
  "set ws \<subseteq> {''startseq''} \<Longrightarrow>
   strip (str_replace ''startseq'' [] (''startseq'' @ concat (map (\<lambda>w. '' '' @ w) ws))) = []"
  by (simp only: str_replace_startseq_prefix str_replace_only_startseq strip_spaces)

text \<open>
  Claim C2, as amended.  With a vocabulary and a stepping function present, a decoded
  sequence with zero words after stripping the \<open>startseq\<close> and \<open>endseq\<close> control tokens
  makes decode return the empty caption, in both modes; it does not fail, and there is no
  EmptyOutput error.  For the greedy mode the decoded text then consists of \<open>startseq\<close>
  tokens only; for the beam search the best sequence decodes to no word.
\<close>

theorem empty_caption_returned:
  assumes "model self = Some mdl" and "tokenizer self = Some tok"
  shows "(greedy_loop tok mdl (max_length self) f (max_length self) ''startseq'' 0 = (Inr in_text, calls)
            \<and> in_text = ''startseq'' @ concat (map (\<lambda>w. '' '' @ w) ws) \<and> set ws \<subseteq> {''startseq''}
          \<longrightarrow> generate_caption_simple self f = (Inr [], calls))
       \<and> (beam_loop tok mdl (max_length self) f beam_width (max_length self)
              [([word_index_get tok ''startseq'' 1], 0)] 0 = (best # rest, calls')
            \<and> caption_words tok (fst best) = []
          \<longrightarrow> generate_caption_beam_search self f beam_width = (Inr [], calls'))"
  using assms greedy_only_startseq[of ws]
  by (auto simp: generate_caption_simple_def generate_caption_beam_search_def Let_def)

lemma demo_ok: "vocabulary_ok demo_tokenizer"
  by (simp add: vocabulary_ok_def demo_tokenizer_def demo_index_def)

lemma demo_end: "word_index_get demo_tokenizer ''endseq'' d = 2"
  by (simp add: word_index_get_def demo_tokenizer_def demo_index_def)

lemma demo_start: "word_index_get demo_tokenizer ''startseq'' d = 1"
  by (simp add: word_index_get_def demo_tokenizer_def demo_index_def)

lemma always_end_one_hot: "always_end f seq = one_hot 5 2"
  by (simp add: always_end_def one_hot_def upt_rec)

lemma demo_self_simps:
  "model (demo_self L m) = Some m" "tokenizer (demo_self L m) = Some demo_tokenizer"
  "max_length (demo_self L m) = L"
  by (simp_all add: demo_self_def)

text \<open>
  The claim as stated fails: with the stepping function that always returns the one-hot
  distribution on \<open>endseq\<close>, the decoded sequence has no word, and both modes return the
  empty caption instead of an error.
\<close>

theorem empty_output_counterexample:
  "fst (generate_caption_simple (demo_self 34 always_end) []) = Inr []
   \<and> fst (generate_caption_beam_search (demo_self 34 always_end) [] 3) = Inr []"
proof -
  have h: "\<forall>seq. always_end [] seq = one_hot 5 (word_index_get demo_tokenizer ''endseq'' 2)"
    by (simp add: always_end_one_hot demo_end)
  have w5: "word_for_id 2 demo_tokenizer = Some ''endseq''"
    by (simp add: word_for_id_def demo_tokenizer_def demo_index_def)
  have "generate_caption_simple (demo_self 34 always_end) [] = (Inr [], min 1 34)"
    using greedy_end[where self="demo_self 34 always_end" and mdl=always_end and tok=demo_tokenizer
        and f="[]" and n=5 and e=2]
    by (simp add: demo_self_simps always_end_one_hot w5)
  moreover have "fst (generate_caption_beam_search (demo_self 34 always_end) [] 3) = Inr []"
    using beam_end(1)[where self="demo_self 34 always_end" and mdl=always_end and tok=demo_tokenizer
        and f="[]" and n=5 and w=3, OF demo_self_simps(1) demo_self_simps(2) demo_ok h]
    by (simp add: demo_end)
  ultimately show ?thesis by simp
qed

theorem empty_caption_returned_witness:
  "greedy_loop demo_tokenizer always_end 34 [] 34 ''startseq'' 0 = (Inr ''startseq'', 1)
   \<and> generate_caption_simple (demo_self 34 always_end) [] = (Inr [], 1)
   \<and> beam_loop demo_tokenizer always_end 2 [] 1 2 [([1], 0)] 0 = ([([1, 2], ln (1 + 1 / 100000000))], 1)
   \<and> generate_caption_beam_search (demo_self 2 always_end) [] 1 = (Inr [], 1)"
proof -
  have g: "greedy_loop demo_tokenizer always_end 34 [] 34 ''startseq'' 0 = (Inr ''startseq'', 1)"
    by code_simp
  have as2: "argsort [0, 0, 1, 0, 0] = [0, 1, 3, 4, 2]" by code_simp
  have b: "beam_loop demo_tokenizer always_end 2 [] 1 2 [([1], 0)] 0
             = ([([1, 2], ln (1 + 1 / 100000000))], 1)"
    by (simp add: always_end_def demo_end as2 last_n_def eval_nat_numeral)
  have c: "caption_words demo_tokenizer [1, 2] = []"
    by (simp add: word_for_id_def demo_tokenizer_def demo_index_def)
  show ?thesis
    using empty_caption_returned[where self="demo_self 34 always_end" and mdl=always_end
        and tok=demo_tokenizer and f="[]" and in_text="''startseq''" and calls=1 and ws="[]"
        and beam_width=1 and best="([1, 2], ln (1 + 1 / 100000000))" and rest="[]" and calls'=1]
      empty_caption_returned[where self="demo_self 2 always_end" and mdl=always_end
        and tok=demo_tokenizer and f="[]" and in_text="''startseq''" and calls=1 and ws="[]"
        and beam_width=1 and best="([1, 2], ln (1 + 1 / 100000000))" and rest="[]" and calls'=1]
      g b c
    by (simp add: demo_self_simps demo_start)
qed

subsection \<open>Missing model or tokenizer\<close>

text \<open>
  Claim C7.  For every input, decode fails with NotReady, in the greedy and in the
  beam-search mode, if and only if the tokenizer or the model is absent; and in that case
  the stepping function has not been called: the check comes before any decoding step.
\<close>

theorem not_ready_iff:
  "(fst (generate_caption_simple self f) = Inl NotReady
      \<longleftrightarrow> tokenizer self = None \<or> model self = None)
   \<and> (fst (generate_caption_beam_search self f beam_width) = Inl NotReady
      \<longleftrightarrow> tokenizer self = None \<or> model self = None)
   \<and> (tokenizer self = None \<or> model self = None \<longrightarrow>
        snd (generate_caption_simple self f) = 0
        \<and> snd (generate_caption_beam_search self f beam_width) = 0)"
proof (cases "model self")
  case None
  then show ?thesis
    by (simp add: generate_caption_simple_def generate_caption_beam_search_def)
next
  case (Some mdl)
  show ?thesis
  proof (cases "tokenizer self")
    case None
    then show ?thesis using Some
      by (simp add: generate_caption_simple_def generate_caption_beam_search_def)
  next
    case (Some tok)
    have g: "fst (generate_caption_simple self f) \<noteq> Inl NotReady"
      using \<open>model self = Some mdl\<close> Some
        greedy_loop_not_NotReady[of tok mdl "max_length self" f "max_length self" "''startseq''" 0]
      by (auto simp: generate_caption_simple_def split: prod.splits sum.splits)
    have b: "fst (generate_caption_beam_search self f beam_width) \<noteq> Inl NotReady"
      using \<open>model self = Some mdl\<close> Some
      by (auto simp: generate_caption_beam_search_def Let_def split: prod.splits list.splits)
    show ?thesis using g b \<open>model self = Some mdl\<close> Some by simp
  qed
qed

theorem not_ready_iff_witness:
  "fst (generate_caption_simple \<lparr>max_length = 34, tokenizer = None, model = Some always_a\<rparr> [])
     = Inl NotReady
   \<and> fst (generate_caption_beam_search \<lparr>max_length = 34, tokenizer = None, model = Some always_a\<rparr> [] 3)
     = Inl NotReady
   \<and> snd (generate_caption_simple \<lparr>max_length = 34, tokenizer = None, model = Some always_a\<rparr> []) = 0
   \<and> snd (generate_caption_beam_search \<lparr>max_length = 34, tokenizer = None, model = Some always_a\<rparr> [] 3)
     = 0
   \<and> fst (generate_caption_simple (demo_self 34 always_a) []) \<noteq> Inl NotReady
   \<and> fst (generate_caption_beam_search (demo_self 34 always_a) [] 3) \<noteq> Inl NotReady"
  using not_ready_iff[of "\<lparr>max_length = 34, tokenizer = None, model = Some always_a\<rparr>" "[]" 3]
    not_ready_iff[of "demo_self 34 always_a" "[]" 3]
  by (simp add: demo_self_simps)

subsection \<open>Bounds on the calls and on the length of the caption\<close>

text \<open>
  Claim C8.  For every maximum length \<open>L\<close>, feature vector, vocabulary and stepping
  function: the greedy mode calls the stepping function at most \<open>L\<close> times and returns a
  caption made of at most \<open>L\<close> words of the vocabulary; the beam search runs at most \<open>L\<close>
  iterations with at most one call for each candidate of the frontier (at most
  \<open>L * max(1, beam_width)\<close> calls in all), every candidate of its final frontier has at
  most \<open>L\<close> ids after the start token, each appended after one call on its parent, and the
  caption it returns is made of at most \<open>L\<close> words of the vocabulary.  For \<open>L = 0\<close> the
  bound on the words of the beam search needs the start token of the vocabulary to decode to
  \<open>startseq\<close>, as the vocabulary invariant says.
\<close>

theorem decode_bounds:
  assumes "model self = Some mdl" and "tokenizer self = Some tok"
    and "0 < max_length self
         \<or> word_for_id (word_index_get tok ''startseq'' 1) tok = Some ''startseq''"
  shows "snd (generate_caption_simple self f) \<le> max_length self
    \<and> (fst (generate_caption_simple self f) = Inr caption \<longrightarrow>
         (\<exists>ws. length ws \<le> max_length self \<and> set ws \<subseteq> fst ` set (word_index tok)
            \<and> caption = strip (str_replace ''startseq'' []
                                 (''startseq'' @ concat (map (\<lambda>w. '' '' @ w) ws)))))
    \<and> snd (generate_caption_beam_search self f beam_width) \<le> max_length self * max 1 beam_width
    \<and> (\<forall>c \<in> set (fst (beam_loop tok mdl (max_length self) f beam_width (max_length self)
                          [([word_index_get tok ''startseq'' 1], 0)] 0)).
          length (fst c) - 1 \<le> max_length self)
    \<and> (fst (generate_caption_beam_search self f beam_width) = Inr caption' \<longrightarrow>
         (\<exists>ws. length ws \<le> max_length self \<and> set ws \<subseteq> fst ` set (word_index tok)
            \<and> caption' = join_space ws))"
proof (intro conjI impI)
  let ?L = "max_length self"
  let ?s = "word_index_get tok ''startseq'' 1"
  let ?g = "greedy_loop tok mdl ?L f ?L ''startseq'' 0"
  let ?r = "beam_loop tok mdl ?L f beam_width ?L [([?s], 0)] 0"
  have gs: "snd (generate_caption_simple self f) = snd ?g"
    using assms(1,2) by (simp add: generate_caption_simple_def split: prod.splits sum.splits)
  show "snd (generate_caption_simple self f) \<le> ?L"
    using gs greedy_loop_calls[of tok mdl ?L f ?L "''startseq''" 0] by simp
  have bs: "snd (generate_caption_beam_search self f beam_width) = snd ?r"
    using assms(1,2)
    by (simp add: generate_caption_beam_search_def Let_def split: prod.splits list.splits)
  have "snd ?r \<le> 0 + ?L * max 1 beam_width" by (rule beam_loop_calls) simp
  then show "snd (generate_caption_beam_search self f beam_width) \<le> ?L * max 1 beam_width"
    using bs by simp
  have len: "\<forall>c \<in> set (fst ?r). length (fst c) \<le> max 1 ?L"
    by (rule beam_loop_lengths) simp
  then show "\<forall>c \<in> set (fst ?r). length (fst c) - 1 \<le> ?L" by fastforce
  {
    assume "fst (generate_caption_simple self f) = Inr caption"
    then obtain in_text c where g: "?g = (Inr in_text, c)"
      and cap: "caption = strip (str_replace ''startseq'' [] in_text)"
      using assms(1,2)
      by (auto simp: generate_caption_simple_def split: prod.splits sum.splits)
    from greedy_loop_text[OF g] cap
    show "\<exists>ws. length ws \<le> ?L \<and> set ws \<subseteq> fst ` set (word_index tok)
            \<and> caption = strip (str_replace ''startseq'' []
                                 (''startseq'' @ concat (map (\<lambda>w. '' '' @ w) ws)))"
      by blast
  }
  {
    assume "fst (generate_caption_beam_search self f beam_width) = Inr caption'"
    then obtain best rest c where r: "?r = (best # rest, c)"
      and cap: "caption' = join_space (caption_words tok (fst best))"
      using assms(1,2)
      by (auto simp: generate_caption_beam_search_def Let_def split: prod.splits list.splits)
    have "length (caption_words tok (fst best)) \<le> ?L"
    proof (cases "0 < ?L")
      case True
      have "length (fst best) \<le> max 1 ?L" using len r by simp
      then show ?thesis using True caption_words_length[of tok "fst best"] by simp
    next
      case False
      then have "?r = ([([?s], 0)], 0)" by simp
      then have "fst best = [?s]" using r by auto
      moreover have "word_for_id ?s tok = Some ''startseq''" using assms(3) False by simp
      ultimately show ?thesis by simp
    qed
    then show "\<exists>ws. length ws \<le> ?L \<and> set ws \<subseteq> fst ` set (word_index tok)
            \<and> caption' = join_space ws"
      using cap caption_words_vocab[of tok "fst best"] by blast
  }
qed

theorem decode_bounds_witness:
  "snd (generate_caption_simple (demo_self 5 a_dog_end) []) \<le> 5
   \<and> (\<exists>ws. length ws \<le> 5 \<and> set ws \<subseteq> fst ` set (word_index demo_tokenizer)
          \<and> ''a dog'' = strip (str_replace ''startseq'' []
                                 (''startseq'' @ concat (map (\<lambda>w. '' '' @ w) ws))))
   \<and> snd (generate_caption_beam_search (demo_self 5 a_dog_end) [] 1) \<le> 5 * max 1 1
   \<and> (\<exists>ws. length ws \<le> 5 \<and> set ws \<subseteq> fst ` set (word_index demo_tokenizer)
          \<and> ''a dog'' = join_space ws)"
proof -
  have g: "fst (generate_caption_simple (demo_self 5 a_dog_end) []) = Inr ''a dog''"
    by code_simp
  have as: "argsort [0, 0.1, 0.7, 0.1, 0.1] = [0, 1, 3, 4, 2]"
    "argsort [0, 0.1, 0.1, 0.1, 0.7] = [0, 1, 2, 3, 4]"
    "argsort [0, 0.1, 0.1, 0.7, 0.1] = [0, 1, 2, 4, 3]"
    by code_simp+
  have wf: "word_for_id n demo_tokenizer =
     (if n = 1 then Some ''startseq'' else if n = 2 then Some ''endseq''
      else if n = 3 then Some ''a'' else if n = 4 then Some ''dog'' else None)" for n
    by (simp add: word_for_id_def demo_tokenizer_def demo_index_def)
  have b: "fst (generate_caption_beam_search (demo_self 5 a_dog_end) [] 1) = Inr ''a dog''"
    by (simp add: generate_caption_beam_search_def demo_self_def a_dog_end_def demo_start demo_end
        wf as last_n_def Let_def eval_nat_numeral)
  have p: "0 < max_length (demo_self 5 a_dog_end)
         \<or> word_for_id (word_index_get demo_tokenizer ''startseq'' 1) demo_tokenizer
             = Some ''startseq''"
    by (simp add: demo_self_simps)
  from decode_bounds[where self="demo_self 5 a_dog_end" and mdl=a_dog_end and tok=demo_tokenizer
      and f="[]" and beam_width=1 and caption="''a dog''" and caption'="''a dog''",
      OF demo_self_simps(1) demo_self_simps(2) p] g b
  show ?thesis by (simp add: demo_self_simps)
qed

subsection \<open>The stepping function that always ends\<close>

text \<open>
  Claim C9.  For every feature vector, a vocabulary that satisfies its invariant, and a
  stepping function that always returns the one-hot distribution on the vocabulary's
  \<open>endseq\<close> id: decode returns the empty caption in the greedy mode and in the beam-search
  mode (for every beam width of at least 1), stays within the call budget (at most \<open>L\<close>
  calls in the greedy mode; in the beam search at most \<open>L\<close> calls for each of the
  \<open>beam_width\<close> candidates, and no candidate with more than \<open>L\<close> ids after the start
  token), and does not fail.
\<close>

theorem decode_one_hot_end:
  assumes "model self = Some mdl" and "tokenizer self = Some tok" and "vocabulary_ok tok"
    and "\<forall>seq. mdl f seq = one_hot n (word_index_get tok ''endseq'' 2)"
    and "word_index_get tok ''endseq'' 2 < n" and "0 < beam_width"
  shows "fst (generate_caption_simple self f) = Inr []
    \<and> snd (generate_caption_simple self f) \<le> max_length self
    \<and> fst (generate_caption_beam_search self f beam_width) = Inr []
    \<and> snd (generate_caption_beam_search self f beam_width) \<le> max_length self * beam_width
    \<and> (\<forall>c \<in> set (fst (beam_loop tok mdl (max_length self) f beam_width (max_length self)
                          [([word_index_get tok ''startseq'' 1], 0)] 0)).
          length (fst c) - 1 \<le> max_length self)"
proof -
  have "word_for_id (word_index_get tok ''endseq'' 2) tok = Some ''endseq''"
    using vocabulary_start_end(2)[OF assms(3)] .
  from greedy_end[OF assms(1,2,4,5) this]
  have g: "fst (generate_caption_simple self f) = Inr []"
    "snd (generate_caption_simple self f) \<le> max_length self" by simp_all
  have "\<forall>c \<in> set (fst (beam_loop tok mdl (max_length self) f beam_width (max_length self)
                          [([word_index_get tok ''startseq'' 1], 0)] 0)).
          length (fst c) \<le> max 1 (max_length self)"
    by (rule beam_loop_lengths) simp
  then have l: "\<forall>c \<in> set (fst (beam_loop tok mdl (max_length self) f beam_width (max_length self)
                          [([word_index_get tok ''startseq'' 1], 0)] 0)).
          length (fst c) - 1 \<le> max_length self"
    by fastforce
  show ?thesis
    using g l beam_end[where self=self and mdl=mdl and tok=tok and f=f and n=n and w=beam_width,
        OF assms]
    by simp
qed

theorem decode_one_hot_end_witness:
  "fst (generate_caption_simple (demo_self 34 always_end) []) = Inr []
    \<and> snd (generate_caption_simple (demo_self 34 always_end) []) \<le> 34
    \<and> fst (generate_caption_beam_search (demo_self 34 always_end) [] 3) = Inr []
    \<and> snd (generate_caption_beam_search (demo_self 34 always_end) [] 3) \<le> 34 * 3"
proof -
  have h: "\<forall>seq. always_end [] seq = one_hot 5 (word_index_get demo_tokenizer ''endseq'' 2)"
    by (simp add: always_end_one_hot demo_end)
  have l: "word_index_get demo_tokenizer ''endseq'' 2 < 5" by (simp add: demo_end)
  show ?thesis
    using decode_one_hot_end[where self="demo_self 34 always_end" and mdl=always_end
        and tok=demo_tokenizer and f="[]" and n=5 and beam_width=3,
        OF demo_self_simps(1) demo_self_simps(2) demo_ok h l]
    by (simp add: demo_self_simps)
qed

section \<open>Beam search of width 1 and greedy search\<close>

subsection \<open>The caption of the greedy decoder\<close>

lemma text_of_snoc: "text_of (ws @ [w]) = text_of ws @ '' '' @ w"
  by (simp add: text_of_def)

lemma text_of_Nil: "text_of [] = ''startseq''"
  by (simp add: text_of_def)

lemma str_replace_absent:
  "old \<noteq> [] \<Longrightarrow> \<not> str_in old t \<Longrightarrow> str_replace old new t = t"
proof (induction t)
  case Nil
  then show ?case by (subst str_replace.simps) simp
next
  case (Cons c t)
  then have "\<not> startswith (c # t) old" and "\<not> str_in old t" by simp_all
  then show ?case using Cons by (subst str_replace.simps) simp
qed

lemma startswith_append:
  assumes "startswith (a @ b) k"
  shows "startswith a k \<or> (\<exists>k2. k2 \<noteq> [] \<and> k = a @ k2 \<and> startswith b k2)"
proof -
  from assms obtain r where "a @ b = k @ r" by (auto simp: startswith_iff)
  then obtain us where "(a = k @ us \<and> us @ b = r) \<or> (a @ us = k \<and> b = us @ r)"
    by (auto simp: append_eq_append_conv2)
  then show ?thesis
  proof
    assume "a = k @ us \<and> us @ b = r"
    then show ?thesis by (auto simp: startswith_iff)
  next
    assume h: "a @ us = k \<and> b = us @ r"
    show ?thesis
    proof (cases "us = []")
      case True
      then show ?thesis using h by (auto simp: startswith_iff)
    next
      case False
      then show ?thesis using h by (auto simp: startswith_iff)
    qed
  qed
qed

lemma str_in_append_space:
  assumes "CHR '' '' \<notin> set k" and "t = [] \<or> hd t = CHR '' ''" and "str_in k (w @ t)"
  shows "str_in k w \<or> str_in k t"
  using assms(3)
proof (induction w)
  case Nil
  then show ?case by simp
next
  case (Cons c w)
  from Cons.prems have "startswith ((c # w) @ t) k \<or> str_in k (w @ t)" by simp
  then show ?case
  proof
    assume "str_in k (w @ t)"
    then show ?thesis using Cons.IH by auto
  next
    assume "startswith ((c # w) @ t) k"
    from startswith_append[OF this]
    show ?thesis
    proof
      assume "startswith (c # w) k"
      then show ?thesis by simp
    next
      assume "\<exists>k2. k2 \<noteq> [] \<and> k = (c # w) @ k2 \<and> startswith t k2"
      then obtain k2 where k2: "k2 \<noteq> []" "k = (c # w) @ k2" "startswith t k2" by blast
      then obtain r where "t = k2 @ r" by (auto simp: startswith_iff)
      then have "hd t = hd k2" "t \<noteq> []" using k2(1) by simp_all
      then have "CHR '' '' \<in> set k" using assms(2) k2(1,2) by (cases k2) auto
      then show ?thesis using assms(1) by simp
    qed
  qed
qed

lemma str_in_spaced:
  assumes "CHR '' '' \<notin> set k" and "k \<noteq> []"
  shows "str_in k (concat (map (\<lambda>w. '' '' @ w) ws)) \<Longrightarrow> \<exists>w \<in> set ws. str_in k w"
proof (induction ws)
  case Nil
  then show ?case using assms(2) by simp
next
  case (Cons w ws)
  let ?t = "concat (map (\<lambda>w. '' '' @ w) ws)"
  have t: "?t = [] \<or> hd ?t = CHR '' ''" by (cases ws) simp_all
  have "\<not> startswith (CHR '' '' # w @ ?t) k" using assms by (cases k) auto
  with Cons.prems have "str_in k (w @ ?t)" by simp
  from str_in_append_space[OF assms(1) t this] show ?case using Cons.IH by auto
qed

lemma join_space_Cons: "join_space (w # ws) = w @ concat (map (\<lambda>w. '' '' @ w) ws)"
  by (induction ws arbitrary: w) simp_all

lemma strip_id: "x \<noteq> [] \<Longrightarrow> \<not> is_space (hd x) \<Longrightarrow> \<not> is_space (last x) \<Longrightarrow> strip x = x"
proof -
  assume a: "x \<noteq> []" "\<not> is_space (hd x)" "\<not> is_space (last x)"
  have 1: "dropWhile is_space x = x" using a(1,2) by (cases x) simp_all
  have "rev x \<noteq> []" "\<not> is_space (hd (rev x))" using a(1,3) by (simp_all add: hd_rev)
  then have 2: "dropWhile is_space (rev x) = rev x" by (cases "rev x") simp_all
  show ?thesis by (simp add: strip_def 1 2)
qed

lemma strip_leading_space: "strip (CHR '' '' # x) = strip x"
  by (simp add: strip_def is_space_def)

lemma last_spaced:
  "\<forall>w \<in> set (w0 # ws). w \<noteq> [] \<Longrightarrow>
   last (w0 @ concat (map (\<lambda>w. '' '' @ w) ws)) = last (last (w0 # ws))"
proof (induction ws arbitrary: w0)
  case Nil
  then show ?case by simp
next
  case (Cons w ws)
  have "last (w @ concat (map (\<lambda>w. '' '' @ w) ws)) = last (last (w # ws))"
    using Cons.IH[of w] Cons.prems by simp
  moreover have "w \<noteq> []" using Cons.prems by simp
  ultimately show ?case by simp
qed

lemma strip_spaced:
  assumes "\<forall>w \<in> set ws. w \<noteq> [] \<and> (\<forall>c \<in> set w. \<not> is_space c)"
  shows "strip (concat (map (\<lambda>w. '' '' @ w) ws)) = join_space ws"
proof (cases ws)
  case Nil
  then show ?thesis by (simp add: strip_def)
next
  case (Cons w ws')
  let ?x = "w @ concat (map (\<lambda>w. '' '' @ w) ws')"
  have ne: "\<forall>v \<in> set (w # ws'). v \<noteq> []" using assms Cons by simp
  then have xne: "?x \<noteq> []" by simp
  have "hd ?x = hd w" using ne by simp
  then have h: "\<not> is_space (hd ?x)" using assms Cons by (cases w) auto
  have lw: "last (w # ws') \<in> set ws" using Cons by (metis last_in_set list.distinct(1))
  then have "last (w # ws') \<noteq> []" using assms by blast
  then have "last (last (w # ws')) \<in> set (last (w # ws'))" by simp
  then have "\<not> is_space (last (last (w # ws')))" using assms lw by blast
  then have l: "\<not> is_space (last ?x)" using last_spaced[OF ne] by simp
  have "strip (concat (map (\<lambda>w. '' '' @ w) ws)) = strip ?x"
    using Cons strip_leading_space[of ?x] by simp
  then show ?thesis using strip_id[OF xne h l] Cons join_space_Cons[of w ws'] by simp
qed

lemma startseq_no_space: "CHR '' '' \<notin> set ''startseq''"
  by simp

lemma greedy_final_text:
  assumes "\<forall>w \<in> set ws. w \<noteq> [] \<and> (\<forall>c \<in> set w. \<not> is_space c) \<and> \<not> str_in ''startseq'' w"
  shows "strip (str_replace ''startseq'' [] (text_of ws)) = join_space ws"
proof -
  let ?t = "concat (map (\<lambda>w. '' '' @ w) ws)"
  have "\<not> str_in ''startseq'' ?t"
    using str_in_spaced[OF startseq_no_space, of ws] assms by blast
  then have "str_replace ''startseq'' [] ?t = ?t" by (intro str_replace_absent) simp_all
  then have "str_replace ''startseq'' [] (text_of ws) = ?t"
    unfolding text_of_def by (simp only: str_replace_startseq_prefix)
  then show ?thesis using strip_spaced[of ws] assms by simp
qed

subsection \<open>The beam search of width 1 follows the maximum\<close>

lemma unique_maximum_argmax:
  assumes "unique_maximum p"
  obtains i where "argmax p = Inr i" and "last (argsort p) = i" and "i < length p"
proof -
  from assms obtain i where i: "i < length p" "\<forall>j < length p. j \<noteq> i \<longrightarrow> p ! j < p ! i"
    by (auto simp: unique_maximum_def)
  show ?thesis using that[of i] argmax_unique[OF i] last_argsort_unique[OF i] i(1) by simp
qed

lemma last_n_one: "xs \<noteq> [] \<Longrightarrow> last_n 1 xs = [last xs]"
proof -
  assume "xs \<noteq> []"
  then have "xs = butlast xs @ [last xs]" by simp
  then have "drop (length xs - 1) xs = drop (length (butlast xs)) (butlast xs @ [last xs])"
    by simp
  then show ?thesis by (simp add: last_n_def)
qed

lemma beam1_step_complete:
  "finished tok L (ids, sc) \<Longrightarrow> beam_step tok mdl L f 1 [(ids, sc)] = [(ids, sc)]"
  by (simp add: beam_step_def expand_def)

lemma beam1_step_expand:
  assumes "\<not> finished tok L (ids, sc)"
    and "unique_maximum (mdl f (ids @ replicate (L - length ids) 0))"
    and "argmax (mdl f (ids @ replicate (L - length ids) 0)) = Inr i"
  shows "\<exists>sc'. beam_step tok mdl L f 1 [(ids, sc)] = [(ids @ [i], sc')]"
proof -
  let ?p = "mdl f (ids @ replicate (L - length ids) 0)"
  from unique_maximum_argmax[OF assms(2)] assms(3)
  have l: "last (argsort ?p) = i" and "i < length ?p" by auto
  then have ne: "argsort ?p \<noteq> []" using length_argsort[of ?p] by auto
  have "last_n 1 (argsort ?p) = [i]" unfolding last_n_one[OF ne] l ..
  then show ?thesis using assms(1) by (simp add: beam_step_def expand_def)
qed

lemma beam_loop_Suc_cases:
  "fst (beam_loop tok mdl L f w (Suc n) F c) = beam_step tok mdl L f w F
   \<or> fst (beam_loop tok mdl L f w (Suc n) F c)
       = fst (beam_loop tok mdl L f w n (beam_step tok mdl L f w F)
                (c + length (filter (\<lambda>x. \<not> finished tok L x) F)))"
  unfolding beam_loop_Suc Let_def by simp

lemma beam1_extends:
  assumes um: "\<forall>x. unique_maximum (mdl f x)"
  shows "\<exists>ext sc'. fst (beam_loop tok mdl L f 1 n [(ids, sc)] c) = [(ids @ ext, sc')]"
proof (induction n arbitrary: ids sc c)
  case 0
  have "fst (beam_loop tok mdl L f 1 0 [(ids, sc)] c) = [(ids @ [], sc)]" by simp
  then show ?case by blast
next
  case (Suc n)
  show ?case
  proof (cases "finished tok L (ids, sc)")
    case True
    have st: "beam_step tok mdl L f 1 [(ids, sc)] = [(ids, sc)]"
      by (rule beam1_step_complete[OF True])
    from Suc.IH[of ids sc] obtain ext sc' where
      a: "fst (beam_loop tok mdl L f 1 n [(ids, sc)]
              (c + length (filter (\<lambda>x. \<not> finished tok L x) [(ids, sc)]))) = [(ids @ ext, sc')]"
      by blast
    from beam_loop_Suc_cases[of tok mdl L f 1 n "[(ids, sc)]" c]
    show ?thesis
    proof
      assume "fst (beam_loop tok mdl L f 1 (Suc n) [(ids, sc)] c) = beam_step tok mdl L f 1 [(ids, sc)]"
      then have "fst (beam_loop tok mdl L f 1 (Suc n) [(ids, sc)] c) = [(ids @ [], sc)]"
        using st by simp
      then show ?thesis by blast
    next
      assume "fst (beam_loop tok mdl L f 1 (Suc n) [(ids, sc)] c)
       = fst (beam_loop tok mdl L f 1 n (beam_step tok mdl L f 1 [(ids, sc)])
                (c + length (filter (\<lambda>x. \<not> finished tok L x) [(ids, sc)])))"
      then have "fst (beam_loop tok mdl L f 1 (Suc n) [(ids, sc)] c) = [(ids @ ext, sc')]"
        using st a by simp
      then show ?thesis by blast
    qed
  next
    case False
    from um have u: "unique_maximum (mdl f (ids @ replicate (L - length ids) 0))" by blast
    from unique_maximum_argmax[OF u] obtain i where
      i: "argmax (mdl f (ids @ replicate (L - length ids) 0)) = Inr i" by blast
    from beam1_step_expand[where mdl=mdl and f=f, OF False u i] obtain sc1 where
      st: "beam_step tok mdl L f 1 [(ids, sc)] = [(ids @ [i], sc1)]" by blast
    from Suc.IH[of "ids @ [i]" sc1] obtain ext sc' where
      "fst (beam_loop tok mdl L f 1 n [(ids @ [i], sc1)]
              (c + length (filter (\<lambda>x. \<not> finished tok L x) [(ids, sc)])))
         = [((ids @ [i]) @ ext, sc')]"
      by blast
    then have a: "fst (beam_loop tok mdl L f 1 n [(ids @ [i], sc1)]
              (c + length (filter (\<lambda>x. \<not> finished tok L x) [(ids, sc)])))
         = [(ids @ (i # ext), sc')]" by simp
    from beam_loop_Suc_cases[of tok mdl L f 1 n "[(ids, sc)]" c]
    show ?thesis
    proof
      assume "fst (beam_loop tok mdl L f 1 (Suc n) [(ids, sc)] c) = beam_step tok mdl L f 1 [(ids, sc)]"
      then have "fst (beam_loop tok mdl L f 1 (Suc n) [(ids, sc)] c) = [(ids @ [i], sc1)]"
        using st by simp
      then show ?thesis by blast
    next
      assume "fst (beam_loop tok mdl L f 1 (Suc n) [(ids, sc)] c)
       = fst (beam_loop tok mdl L f 1 n (beam_step tok mdl L f 1 [(ids, sc)])
                (c + length (filter (\<lambda>x. \<not> finished tok L x) [(ids, sc)])))"
      then have "fst (beam_loop tok mdl L f 1 (Suc n) [(ids, sc)] c) = [(ids @ (i # ext), sc')]"
        using st a by simp
      then show ?thesis by blast
    qed
  qed
qed

lemma caption_words_append_clean:
  "clean tok xs \<Longrightarrow> caption_words tok (xs @ ys) = caption_words tok xs @ caption_words tok ys"
  by (induction xs) (auto simp: clean_def)

lemma caption_words_stop:
  "word_for_id i tok = None \<or> word_for_id i tok = Some ''endseq'' \<Longrightarrow>
   caption_words tok (i # ext) = []"
  by auto

lemma word_for_id_get:
  "vocabulary_ok tok \<Longrightarrow> word_for_id i tok = Some w \<Longrightarrow> word_index_get tok w d = i"
  using vocabulary_get word_for_id_mem by blast

lemma clean_last:
  assumes "vocabulary_ok tok" and "clean tok ids" and "ids \<noteq> []"
  shows "last ids \<noteq> word_index_get tok ''endseq'' 2"
proof
  assume "last ids = word_index_get tok ''endseq'' 2"
  then have "word_for_id (last ids) tok = Some ''endseq''"
    using vocabulary_start_end(2)[OF assms(1)] by simp
  moreover have "last ids \<in> set ids" using assms(3) by simp
  ultimately show False using assms(2) by (auto simp: clean_def)
qed

lemma beam1_words:
  assumes ok: "vocabulary_ok tok" and um: "\<forall>x. unique_maximum (mdl f x)"
    and ns: "\<forall>x. argmax (mdl f x) \<noteq> Inr (word_index_get tok ''startseq'' 1)"
  shows "clean tok ids \<Longrightarrow> ids \<noteq> [] \<Longrightarrow>
     \<exists>best sc'. fst (beam_loop tok mdl L f 1 n [(ids, sc)] c) = [(best, sc')]
        \<and> caption_words tok best
            = caption_words tok ids @ words_from tok mdl L f (min n (L - length ids)) ids"
proof (induction n arbitrary: ids sc c)
  case 0
  then show ?case by simp
next
  case (Suc n)
  let ?e = "word_index_get tok ''endseq'' 2"
  let ?c' = "c + length (filter (\<lambda>x. \<not> finished tok L x) [(ids, sc)])"
  have le: "last ids \<noteq> ?e" using clean_last[OF ok Suc.prems] .
  show ?case
  proof (cases "finished tok L (ids, sc)")
    case True
    then have len: "L - length ids = 0" using le by (simp add: finished_def)
    have st: "beam_step tok mdl L f 1 [(ids, sc)] = [(ids, sc)]"
      by (rule beam1_step_complete[OF True])
    have "beam_loop tok mdl L f 1 (Suc n) [(ids, sc)] c = beam_loop tok mdl L f 1 n [(ids, sc)] ?c'"
      unfolding beam_loop_Suc Let_def st using le by simp
    then show ?thesis using Suc.IH[OF Suc.prems, of sc ?c'] len by simp
  next
    case False
    then have len: "length ids < L" by (simp add: finished_def)
    define m where "m = min n (L - length (ids @ [0]))"
    have m: "min (Suc n) (L - length ids) = Suc m" "min n (L - length (ids @ [0])) = m"
      using len unfolding m_def by simp_all
    let ?p = "mdl f (ids @ replicate (L - length ids) 0)"
    from um have u: "unique_maximum ?p" by blast
    from unique_maximum_argmax[OF u] obtain i where i: "argmax ?p = Inr i" by blast
    from beam1_step_expand[where mdl=mdl and f=f, OF False u i] obtain sc1 where
      st: "beam_step tok mdl L f 1 [(ids, sc)] = [(ids @ [i], sc1)]" by blast
    show ?thesis
    proof (cases "i = ?e")
      case True
      have r: "beam_loop tok mdl L f 1 (Suc n) [(ids, sc)] c = ([(ids @ [i], sc1)], ?c')"
        unfolding beam_loop_Suc Let_def st using True by simp
      have we: "word_for_id i tok = Some ''endseq''"
        using True vocabulary_start_end(2)[OF ok] by simp
      have "caption_words tok (ids @ [i]) = caption_words tok ids @ []"
        using caption_words_append_clean[OF Suc.prems(1), of "[i]"] we by simp
      moreover have "words_from tok mdl L f (Suc m) ids = []" using i we by simp
      ultimately show ?thesis using r m(1) by simp
    next
      case ne: False
      have r: "beam_loop tok mdl L f 1 (Suc n) [(ids, sc)] c
                 = beam_loop tok mdl L f 1 n [(ids @ [i], sc1)] ?c'"
        unfolding beam_loop_Suc Let_def st using ne by simp
      show ?thesis
      proof (cases "word_for_id i tok")
        case None
        from beam1_extends[where mdl=mdl and f=f and tok=tok and L=L and n=n and ids="ids @ [i]" and sc=sc1 and c="?c'", OF um] obtain ext sc' where
          ex: "fst (beam_loop tok mdl L f 1 n [(ids @ [i], sc1)] ?c') = [((ids @ [i]) @ ext, sc')]"
          by blast
        have "caption_words tok ((ids @ [i]) @ ext) = caption_words tok ids @ []"
          using caption_words_append_clean[OF Suc.prems(1), of "i # ext"] None by simp
        moreover have "words_from tok mdl L f (Suc m) ids = []" using i None by simp
        ultimately show ?thesis using r ex m(1) by simp
      next
        case (Some w)
        have w1: "w \<noteq> ''endseq''"
        proof
          assume "w = ''endseq''"
          then have "word_index_get tok ''endseq'' 2 = i" using word_for_id_get[OF ok] Some by simp
          then show False using ne by simp
        qed
        have w2: "w \<noteq> ''startseq''"
        proof
          assume "w = ''startseq''"
          then have "word_index_get tok ''startseq'' 1 = i" using word_for_id_get[OF ok] Some by simp
          then show False using ns i by auto
        qed
        have cl: "clean tok (ids @ [i])" using Suc.prems(1) Some w1 by (simp add: clean_def)
        from Suc.IH[OF cl, of sc1 ?c'] obtain best sc' where
          ih: "fst (beam_loop tok mdl L f 1 n [(ids @ [i], sc1)] ?c') = [(best, sc')]"
            "caption_words tok best = caption_words tok (ids @ [i])
               @ words_from tok mdl L f (min n (L - length (ids @ [i]))) (ids @ [i])"
          by auto
        have "caption_words tok (ids @ [i]) = caption_words tok ids @ [w]"
          using caption_words_append_clean[OF Suc.prems(1), of "[i]"] Some w1 w2 by simp
        moreover have "words_from tok mdl L f (Suc m) ids = w # words_from tok mdl L f m (ids @ [i])"
          using i Some w1 by simp
        moreover have "min n (L - length (ids @ [i])) = m" using m(2) by simp
        ultimately show ?thesis using r ih m(1) by simp
      qed
    qed
  qed
qed

subsection \<open>The greedy loop follows the maximum\<close>

lemma text_of_join: "text_of ws = join_space (''startseq'' # ws)"
  by (simp only: join_space_Cons text_of_def)

lemma greedy_words:
  assumes ok: "vocabulary_ok tok" and enc: "encodes_text tok"
    and pad: "pad_insensitive mdl f L" and um: "\<forall>x. unique_maximum (mdl f x)"
  shows "set ws \<subseteq> fst ` set (word_index tok) \<Longrightarrow> length ws + n \<le> L \<Longrightarrow>
     fst (greedy_loop tok mdl L f n (text_of ws) c)
       = Inr (text_of (ws @ words_from tok mdl L f n (ids_of tok ws)))"
proof (induction n arbitrary: ws c)
  case 0
  then show ?case by simp
next
  case (Suc n)
  have tts: "texts_to_sequences tok (text_of ws) = ids_of tok ws"
    using enc Suc.prems(1) unfolding encodes_text_def ids_of_def text_of_join by blast
  have "length (ids_of tok ws) \<le> L" using Suc.prems(2) by (simp add: ids_of_def)
  then have p: "mdl f (pad_sequences L (ids_of tok ws))
                  = mdl f (ids_of tok ws @ replicate (L - length (ids_of tok ws)) 0)"
    using pad unfolding pad_insensitive_def by blast
  let ?p = "mdl f (ids_of tok ws @ replicate (L - length (ids_of tok ws)) 0)"
  from um have u: "unique_maximum ?p" by blast
  from unique_maximum_argmax[OF u] obtain i where i: "argmax ?p = Inr i" by blast
  show ?case
  proof (cases "word_for_id i tok")
    case None
    then show ?thesis using tts p i by (simp add: Let_def)
  next
    case (Some w)
    show ?thesis
    proof (cases "w = ''endseq''")
      case True
      then show ?thesis using tts p i Some by (simp add: Let_def)
    next
      case False
      have wv: "w \<in> fst ` set (word_index tok)" using word_for_id_mem[OF Some] by force
      have "word_index_get tok w 0 = i" using word_for_id_get[OF ok Some] .
      then have ids: "ids_of tok (ws @ [w]) = ids_of tok ws @ [i]" by (simp add: ids_of_def)
      have "fst (greedy_loop tok mdl L f n (text_of (ws @ [w])) (Suc c))
              = Inr (text_of ((ws @ [w]) @ words_from tok mdl L f n (ids_of tok (ws @ [w]))))"
        using Suc.IH[of "ws @ [w]" "Suc c"] Suc.prems wv by simp
      then show ?thesis using tts p i Some False ids
        by (simp add: Let_def text_of_snoc)
    qed
  qed
qed

lemma words_from_props:
  assumes ok: "vocabulary_ok tok"
    and ns: "\<forall>x. argmax (mdl f x) \<noteq> Inr (word_index_get tok ''startseq'' 1)"
  shows "\<forall>w \<in> set (words_from tok mdl L f n ids).
           w \<in> fst ` set (word_index tok) \<and> w \<noteq> ''startseq''"
proof (induction n arbitrary: ids)
  case 0
  then show ?case by simp
next
  case (Suc n)
  show ?case
  proof (cases "argmax (mdl f (ids @ replicate (L - length ids) 0))")
    case (Inl a)
    then show ?thesis by simp
  next
    case (Inr i)
    show ?thesis
    proof (cases "word_for_id i tok")
      case None
      then show ?thesis using Inr by simp
    next
      case (Some w)
      have wv: "w \<in> fst ` set (word_index tok)" using word_for_id_mem[OF Some] by force
      have "w \<noteq> ''startseq''"
      proof
        assume "w = ''startseq''"
        then have "word_index_get tok ''startseq'' 1 = i"
          using word_for_id_get[OF ok] Some by simp
        then show False using ns Inr by auto
      qed
      then show ?thesis using Inr Some wv Suc.IH[of "ids @ [i]"] by simp
    qed
  qed
qed

subsection \<open>Comparison\<close>

text \<open>
  Claim C3, as amended.  For every feature vector and maximum length \<open>L\<close>, every vocabulary
  that satisfies its invariant, has plain words and a tokenizer that encodes the decoded text
  to the ids of its words, and every stepping function that has a unique maximum, never
  selects the start token and does not depend on the side of the padding: the beam search
  with \<open>beam_width = 1\<close> returns the caption that the greedy decoder has built after
  \<open>L - 1\<close> of its \<open>L\<close> iterations (the beam search counts the start token in \<open>L\<close>).  So
  the two decoders return the same caption whenever the last iteration of the greedy decoder
  appends no word.
\<close>

theorem beam_one_vs_greedy:
  assumes "model self = Some mdl" and "tokenizer self = Some tok"
    and ok: "vocabulary_ok tok" and pl: "plain_words tok" and enc: "encodes_text tok"
    and pad: "pad_insensitive mdl f (max_length self)"
    and um: "\<forall>x. unique_maximum (mdl f x)"
    and ns: "\<forall>x. argmax (mdl f x) \<noteq> Inr (word_index_get tok ''startseq'' 1)"
  shows "(\<exists>t. fst (greedy_loop tok mdl (max_length self) f (max_length self - 1) ''startseq'' 0) = Inr t
            \<and> fst (generate_caption_beam_search self f 1)
                = Inr (strip (str_replace ''startseq'' [] t)))
       \<and> (fst (greedy_loop tok mdl (max_length self) f (max_length self - 1) ''startseq'' 0)
            = fst (greedy_loop tok mdl (max_length self) f (max_length self) ''startseq'' 0)
          \<longrightarrow> fst (generate_caption_beam_search self f 1) = fst (generate_caption_simple self f))"
proof -
  let ?L = "max_length self"
  let ?s = "word_index_get tok ''startseq'' 1"
  let ?W = "words_from tok mdl ?L f (?L - 1) [?s]"
  have ws: "word_for_id ?s tok = Some ''startseq''" using vocabulary_start_end(1)[OF ok] .
  have cl: "clean tok [?s]" using ws by (simp add: clean_def)
  from beam1_words[where mdl=mdl and f=f and tok=tok and L="?L" and n="?L" and ids="[?s]"
      and sc=0 and c=0, OF ok um ns cl]
  obtain best sc' where b: "fst (beam_loop tok mdl ?L f 1 ?L [([?s], 0)] 0) = [(best, sc')]"
    "caption_words tok best = caption_words tok [?s] @ words_from tok mdl ?L f (min ?L (?L - 1)) [?s]"
    by auto
  have "min ?L (?L - 1) = ?L - 1" by simp
  then have cw: "caption_words tok best = ?W" using b(2) ws by simp
  have beam: "fst (generate_caption_beam_search self f 1) = Inr (join_space ?W)"
    using assms(1,2) b(1) cw
    by (cases "beam_loop tok mdl ?L f 1 ?L [([?s], 0)] 0")
       (simp add: generate_caption_beam_search_def Let_def)
  have "''startseq'' \<in> fst ` set (word_index tok)" using ok by (simp add: vocabulary_ok_def)
  from vocabulary_get_mem[OF ok this, of 1]
  have s0: "word_index_get tok ''startseq'' 0 = ?s" by (rule vocabulary_get[OF ok])
  then have ids: "ids_of tok [] = [?s]" by (simp add: ids_of_def)
  have g: "fst (greedy_loop tok mdl ?L f (?L - 1) ''startseq'' 0) = Inr (text_of ?W)"
    using greedy_words[where mdl=mdl and f=f and tok=tok and L="?L" and n="?L - 1" and ws="[]"
        and c=0, OF ok enc pad um] ids
    by (simp add: text_of_Nil)
  have props: "\<forall>w \<in> set ?W. w \<in> fst ` set (word_index tok) \<and> w \<noteq> ''startseq''"
    using words_from_props[where mdl=mdl and f=f, OF ok ns] by blast
  have "\<forall>w \<in> set ?W. w \<noteq> [] \<and> (\<forall>c \<in> set w. \<not> is_space c) \<and> \<not> str_in ''startseq'' w"
    using props pl unfolding plain_words_def by blast
  then have fin: "strip (str_replace ''startseq'' [] (text_of ?W)) = join_space ?W"
    by (rule greedy_final_text)
  have 1: "\<exists>t. fst (greedy_loop tok mdl ?L f (?L - 1) ''startseq'' 0) = Inr t
            \<and> fst (generate_caption_beam_search self f 1)
                = Inr (strip (str_replace ''startseq'' [] t))"
    using g beam fin by simp
  have 2: "fst (generate_caption_beam_search self f 1) = fst (generate_caption_simple self f)"
    if "fst (greedy_loop tok mdl ?L f (?L - 1) ''startseq'' 0)
            = fst (greedy_loop tok mdl ?L f ?L ''startseq'' 0)"
  proof -
    from that g have "fst (greedy_loop tok mdl ?L f ?L ''startseq'' 0) = Inr (text_of ?W)" by simp
    then have "fst (generate_caption_simple self f)
                 = Inr (strip (str_replace ''startseq'' [] (text_of ?W)))"
      using assms(1,2)
      by (cases "greedy_loop tok mdl ?L f ?L ''startseq'' 0")
         (simp add: generate_caption_simple_def)
    then show ?thesis using beam fin by simp
  qed
  show ?thesis
  proof (intro conjI impI)
    show "\<exists>t. fst (greedy_loop tok mdl ?L f (?L - 1) ''startseq'' 0) = Inr t
            \<and> fst (generate_caption_beam_search self f 1)
                = Inr (strip (str_replace ''startseq'' [] t))"
      by (rule 1)
  next
    assume "fst (greedy_loop tok mdl ?L f (?L - 1) ''startseq'' 0)
            = fst (greedy_loop tok mdl ?L f ?L ''startseq'' 0)"
    then show "fst (generate_caption_beam_search self f 1) = fst (generate_caption_simple self f)"
      by (rule 2)
  qed
qed

subsection \<open>The conditions hold for the small vocabulary\<close>

lemma split_words_word:
  "CHR '' '' \<notin> set w \<Longrightarrow> split_words cur (w @ t) = split_words (cur @ w) t"
  by (induction w arbitrary: cur) auto

lemma split_words_spaced:
  "\<forall>w \<in> set ws. w \<noteq> [] \<and> CHR '' '' \<notin> set w \<Longrightarrow>
   split_words cur (concat (map (\<lambda>w. '' '' @ w) ws)) = (if cur = [] then ws else cur # ws)"
proof (induction ws arbitrary: cur)
  case Nil
  then show ?case by simp
next
  case (Cons w ws)
  have "split_words [] (w @ concat (map (\<lambda>w. '' '' @ w) ws)) = w # ws"
    using split_words_word[of w "[]"] Cons by simp
  then show ?case by simp
qed

lemma lookup_known:
  "set ws \<subseteq> fst ` set wi \<Longrightarrow>
   concat (map (\<lambda>w. case map_of wi w of None \<Rightarrow> [] | Some i \<Rightarrow> [i]) ws)
     = map (\<lambda>w. case map_of wi w of None \<Rightarrow> 0 | Some i \<Rightarrow> i) ws"
proof (induction ws)
  case Nil
  then show ?case by simp
next
  case (Cons w ws)
  then have "map_of wi w \<noteq> None" by (simp add: map_of_eq_None_iff)
  then show ?case using Cons by auto
qed

lemma lookup_words_encodes:
  assumes "texts_to_sequences tok = lookup_words (word_index tok)"
    and "\<forall>w \<in> fst ` set (word_index tok). w \<noteq> [] \<and> CHR '' '' \<notin> set w"
    and "''startseq'' \<in> fst ` set (word_index tok)"
  shows "encodes_text tok"
  unfolding encodes_text_def
proof (intro allI impI)
  fix ws assume ws: "set ws \<subseteq> fst ` set (word_index tok)"
  have "split_words [] (join_space (''startseq'' # ws))
          = split_words ''startseq'' (concat (map (\<lambda>w. '' '' @ w) ws))"
    using split_words_word[of "''startseq''" "[]"] by (simp only: join_space_Cons) simp
  also have "\<dots> = ''startseq'' # ws"
  proof -
    have "\<forall>w \<in> set ws. w \<noteq> [] \<and> CHR '' '' \<notin> set w" using ws assms(2) by blast
    from split_words_spaced[OF this, of "''startseq''"] show ?thesis by simp
  qed
  finally have sp: "split_words [] (join_space (''startseq'' # ws)) = ''startseq'' # ws" .
  have "set (''startseq'' # ws) \<subseteq> fst ` set (word_index tok)" using ws assms(3) by simp
  from lookup_known[OF this]
  show "texts_to_sequences tok (join_space (''startseq'' # ws))
          = map (\<lambda>w. word_index_get tok w 0) (''startseq'' # ws)"
    unfolding assms(1) lookup_words_def sp word_index_get_def by simp
qed

lemma demo_encodes: "encodes_text demo_tokenizer"
  by (rule lookup_words_encodes) (simp_all add: demo_tokenizer_def demo_index_def)

lemma demo_plain: "plain_words demo_tokenizer"
  by (simp add: plain_words_def demo_tokenizer_def demo_index_def is_space_def)

lemma a_dog_end_pad: "pad_insensitive a_dog_end f L"
proof -
  have "set (pad_sequences L ids) = set (ids @ replicate (L - length ids) 0)"
    if "length ids \<le> L" for ids
    using that by (auto simp: pad_sequences_def)
  then show ?thesis by (simp add: pad_insensitive_def a_dog_end_def)
qed

lemma unique_maximum_examples:
  "unique_maximum [0, 0.1, 0.7, 0.1, 0.1]" "unique_maximum [0, 0.1, 0.1, 0.1, 0.7]"
  "unique_maximum [0, 0.1, 0.1, 0.7, 0.1]"
  unfolding unique_maximum_def
  by (rule exI[of _ 2], simp add: nth_Cons' less_Suc_eq eval_nat_numeral,
      rule exI[of _ 4], simp add: nth_Cons' less_Suc_eq eval_nat_numeral,
      rule exI[of _ 3], simp add: nth_Cons' less_Suc_eq eval_nat_numeral)

lemma a_dog_end_unique: "\<forall>x. unique_maximum (a_dog_end f x)"
  by (simp add: a_dog_end_def unique_maximum_examples)

lemma argmax_examples:
  "argmax [0, 0.1, 0.7, 0.1, 0.1] = Inr 2" "argmax [0, 0.1, 0.1, 0.1, 0.7] = Inr 4"
  "argmax [0, 0.1, 0.1, 0.7, 0.1] = Inr 3"
  by (simp_all add: argmax_def)

lemma a_dog_end_no_start:
  "\<forall>x. argmax (a_dog_end f x) \<noteq> Inr (word_index_get demo_tokenizer ''startseq'' 1)"
  by (simp add: a_dog_end_def argmax_examples demo_start)

theorem beam_one_vs_greedy_witness:
  "fst (greedy_loop demo_tokenizer a_dog_end 5 [] 4 ''startseq'' 0) = Inr ''startseq a dog''
   \<and> fst (greedy_loop demo_tokenizer a_dog_end 5 [] 5 ''startseq'' 0) = Inr ''startseq a dog''
   \<and> fst (generate_caption_beam_search (demo_self 5 a_dog_end) [] 1) = Inr ''a dog''
   \<and> fst (generate_caption_simple (demo_self 5 a_dog_end) []) = Inr ''a dog''"
proof -
  have g4: "fst (greedy_loop demo_tokenizer a_dog_end 5 [] 4 ''startseq'' 0) = Inr ''startseq a dog''"
    by code_simp
  have g5: "fst (greedy_loop demo_tokenizer a_dog_end 5 [] 5 ''startseq'' 0) = Inr ''startseq a dog''"
    by code_simp
  have gs: "fst (generate_caption_simple (demo_self 5 a_dog_end) []) = Inr ''a dog''"
    by code_simp
  have st: "strip (str_replace ''startseq'' [] ''startseq a dog'') = ''a dog''"
    by code_simp
  from beam_one_vs_greedy[where self="demo_self 5 a_dog_end" and mdl=a_dog_end
      and tok=demo_tokenizer and f="[]", OF demo_self_simps(1) demo_self_simps(2) demo_ok
      demo_plain demo_encodes]
    a_dog_end_pad[of "[]" 5] a_dog_end_unique[of "[]"] a_dog_end_no_start[of "[]"] g4 g5 gs st
  show ?thesis by (simp add: demo_self_simps)
qed

lemma argsort_examples:
  "argsort [0, 0.1, 0.1, 0.7, 0.1] = [0, 1, 2, 4, 3]"
  "argsort [0, 0.1, 0.1, 2 / 5, 2 / 5] = [0, 1, 2, 3, 4]"
  "argsort [0, 0.1, 0.7, 0.1, 0.1] = [0, 1, 3, 4, 2]"
  by code_simp+

lemma demo_word_for_id:
  "word_for_id n demo_tokenizer =
     (if n = 1 then Some ''startseq'' else if n = 2 then Some ''endseq''
      else if n = 3 then Some ''a'' else if n = 4 then Some ''dog'' else None)"
  by (simp add: word_for_id_def demo_tokenizer_def demo_index_def)

text \<open>
  The claim as stated fails for the configured \<open>max_length = 34\<close> and a stepping function
  that always scores "a" highest: the greedy decoder returns 34 words, the beam search with
  \<open>beam_width = 1\<close> returns 33.
\<close>

theorem beam_one_vs_greedy_counterexample:
  "fst (generate_caption_simple (demo_self 34 always_a) []) = Inr (join_space (replicate 34 ''a''))
   \<and> fst (generate_caption_beam_search (demo_self 34 always_a) [] 1)
       = Inr (join_space (replicate 33 ''a''))
   \<and> fst (generate_caption_beam_search (demo_self 34 always_a) [] 1)
       \<noteq> fst (generate_caption_simple (demo_self 34 always_a) [])"
proof -
  have g: "fst (generate_caption_simple (demo_self 34 always_a) [])
             = Inr (join_space (replicate 34 ''a''))"
    by code_simp
  have b: "fst (generate_caption_beam_search (demo_self 34 always_a) [] 1)
             = Inr (join_space (replicate 33 ''a''))"
    by (simp add: generate_caption_beam_search_def demo_self_def always_a_def demo_start demo_end
        demo_word_for_id argsort_examples last_n_def eval_nat_numeral)
  have "join_space (replicate 33 ''a'') \<noteq> join_space (replicate 34 ''a'')"
    by (simp add: eval_nat_numeral)
  with g b show ?thesis by simp
qed

text \<open>
  The other hypotheses are needed as well.  On a tie \<open>np.argmax\<close> takes the first maximal
  id, and the last entry of a stable \<open>np.argsort\<close> is the last maximal id; and the greedy
  decoder pads at the front where the beam search pads at the back.
\<close>

lemma beam_one_tie_example:
  "fst (generate_caption_simple (demo_self 3 tie_a_dog) []) = Inr ''a a a''
   \<and> fst (generate_caption_beam_search (demo_self 3 tie_a_dog) [] 1) = Inr ''dog dog''"
proof -
  have g: "fst (generate_caption_simple (demo_self 3 tie_a_dog) []) = Inr ''a a a''"
    by code_simp
  have b: "fst (generate_caption_beam_search (demo_self 3 tie_a_dog) [] 1) = Inr ''dog dog''"
    by (simp add: generate_caption_beam_search_def demo_self_def tie_a_dog_def demo_start demo_end
        demo_word_for_id argsort_examples last_n_def Let_def eval_nat_numeral)
  from g b show ?thesis by simp
qed

lemma beam_one_padding_example:
  "fst (generate_caption_simple (demo_self 3 front_sensitive) []) = Inr ''a a''
   \<and> fst (generate_caption_beam_search (demo_self 3 front_sensitive) [] 1) = Inr []"
proof -
  have g: "fst (generate_caption_simple (demo_self 3 front_sensitive) []) = Inr ''a a''"
    by code_simp
  have b: "fst (generate_caption_beam_search (demo_self 3 front_sensitive) [] 1) = Inr []"
    by (simp add: generate_caption_beam_search_def demo_self_def front_sensitive_def demo_start
        demo_end demo_word_for_id argsort_examples last_n_def eval_nat_numeral)
  from g b show ?thesis by simp
qed

end
